theory Spec2Isabelle
  imports Complex_Main "HOL-Library.AList" "HOL-Library.Sublist"
begin

section \<open>Text\<close>

text \<open>
  A JavaScript string is a sequence of UTF-16 code units. The model uses HOL strings:
  a \<^typ>\<open>char\<close> stands for the code unit with the same number, so the texts covered
  are those of the Latin-1 range (code units below 256). Within that range the white
  space of \<open>String.prototype.trim\<close> and of the pattern class \<open>\s\<close> is TAB, LF, VT,
  FF, CR, SPACE and NO-BREAK SPACE, and \<open>toLowerCase\<close> moves \<open>A\<close>..\<open>Z\<close> and
  the accented capitals \<open>0xC0\<close>..\<open>0xDE\<close> (the multiplication sign \<open>0xD7\<close> apart)
  up by 32.
\<close>

definition isWhiteSpace :: "char \<Rightarrow> bool" where
  "isWhiteSpace c =
     (let n = (of_char c :: nat) in (9 \<le> n \<and> n \<le> 13) \<or> n = 32 \<or> n = 160)"

definition toLowerChar :: "char \<Rightarrow> char" where
  "toLowerChar c =
     (let n = (of_char c :: nat)
      in if (65 \<le> n \<and> n \<le> 90) \<or> (192 \<le> n \<and> n \<le> 222 \<and> n \<noteq> 215)
         then char_of (n + 32) else c)"

definition toLowerCase :: "string \<Rightarrow> string" where
  "toLowerCase s = map toLowerChar s"

definition trim :: "string \<Rightarrow> string" where
  "trim s = rev (dropWhile isWhiteSpace (rev (dropWhile isWhiteSpace s)))"

definition substring0 :: "nat \<Rightarrow> string \<Rightarrow> string" where
  \<comment> \<open>\<open>s.substring(0, n)\<close>\<close>
  "substring0 n s = take n s"

section \<open>Data model\<close>

text \<open>
  The value of a parsed \<open>parameters\<close> object. A number keeps its lexeme (the conversion
  to a double is not modelled); a string holds its code units, since a \<open>\u\<close> escape can
  denote any of them.

  The interfaces of the source are records with the fields of the source. Three names
  differ, because HOL has constants of the same name or a record above has the field:
  \<open>idOf\<close> is the field \<open>id\<close> of an advisor, \<open>roundNo\<close> the field \<open>round\<close> of a
  round, and \<open>consensusText\<close> the field \<open>consensus\<close> of the result of
  \<open>checkConsensus\<close>. An optional field is an \<open>option\<close>.
\<close>

datatype json =
    JNull
  | JBool bool
  | JNumber string
  | JString "nat list"
  | JArray "json list"
  | JObject "(nat list \<times> json) list"

record ToolRequest =
  tool :: string
  parameters :: json
  reason :: string

record AdvisorConfig =
  idOf :: string
  name :: string
  systemPrompt :: string
  model :: string

record AdvisorResponse =
  advisorId :: string
  response :: string
  toolRequests :: "ToolRequest list option"

record DiscussionRound =
  roundNo :: nat
  responses :: "AdvisorResponse list"
  consensus :: "string option"

section \<open>The agreement evaluator\<close>

text \<open>
  \<open>agreementCounts\<close> is a plain object literal \<open>{}\<close> used as a dictionary, so its
  keys live beside the properties it inherits from \<open>Object.prototype\<close>. After lower
  casing, the inherited names a response text can hit are \<open>constructor\<close> (a function)
  and \<open>__proto__\<close> (an accessor). A slot of the object holds a number, or the string
  that \<open>+ 1\<close> makes of a value that is not a number.
\<close>

datatype slot = Count nat | Text string

datatype number = NaN | NegInfinity | Number real

type_synonym counts = "(string \<times> slot) list"

definition addOne :: "slot \<Rightarrow> slot" where
  \<comment> \<open>\<open>(v || 0) + 1\<close> for an own value \<open>v\<close>\<close>
  "addOne v = (case v of Count n \<Rightarrow> Count (n + 1)
               | Text s \<Rightarrow> if s = [] then Count 1 else Text (s @ ''1''))"

definition countResponse :: "counts \<Rightarrow> string \<Rightarrow> counts" where
  \<comment> \<open>\<open>acc[response] = (acc[response] || 0) + 1\<close>: own properties are kept in creation order\<close>
  "countResponse acc key =
     (case map_of acc key of
        Some v \<Rightarrow> AList.update key (addOne v) acc
      | None \<Rightarrow>
          if key = ''constructor''
          then AList.update key (Text ''function Object() { [native code] }1'') acc
          else if key = ''__proto__'' then acc
          else AList.update key (Count 1) acc)"

text \<open>
  \<open>Object.keys\<close> and \<open>Object.values\<close> list the keys that are array indices first, in
  ascending numeric order, and then the other keys in creation order.
\<close>

definition isDigit :: "char \<Rightarrow> bool" where
  "isDigit c = (let n = (of_char c :: nat) in 48 \<le> n \<and> n \<le> 57)"

definition digitsValue :: "string \<Rightarrow> nat" where
  "digitsValue s = foldl (\<lambda>n c. 10 * n + (of_char c - 48)) 0 s"

definition isArrayIndex :: "string \<Rightarrow> bool" where
  "isArrayIndex s =
     (s \<noteq> [] \<and> list_all isDigit s \<and> (if hd s = CHR ''0'' then length s = 1 else True)
      \<and> digitsValue s < 4294967295)"

definition objectEntries :: "counts \<Rightarrow> counts" where
  "objectEntries acc =
     sort_key (\<lambda>p. digitsValue (fst p)) (filter (\<lambda>p. isArrayIndex (fst p)) acc)
     @ filter (\<lambda>p. \<not> isArrayIndex (fst p)) acc"

definition objectKeys :: "counts \<Rightarrow> string list" where
  "objectKeys acc = map fst (objectEntries acc)"

definition objectValues :: "counts \<Rightarrow> slot list" where
  "objectValues acc = map snd (objectEntries acc)"

definition toNumber :: "slot \<Rightarrow> number" where
  \<comment> \<open>the strings stored are the source text of a function followed by ones: not numeric\<close>
  "toNumber v = (case v of Count n \<Rightarrow> Number (real n) | Text s \<Rightarrow> NaN)"

fun maxNumber :: "number \<Rightarrow> number \<Rightarrow> number" where
  "maxNumber NaN y = NaN"
| "maxNumber x NaN = NaN"
| "maxNumber NegInfinity y = y"
| "maxNumber x NegInfinity = x"
| "maxNumber (Number a) (Number b) = Number (max a b)"

definition Math_max :: "slot list \<Rightarrow> number" where
  "Math_max vs = foldl (\<lambda>m v. maxNumber m (toNumber v)) NegInfinity vs"

definition divideBy :: "number \<Rightarrow> nat \<Rightarrow> number" where
  \<comment> \<open>\<open>x / n\<close> for a positive \<open>n\<close>\<close>
  "divideBy x n = (case x of Number a \<Rightarrow> Number (a / real n) | _ \<Rightarrow> x)"

definition greaterEq :: "number \<Rightarrow> real \<Rightarrow> bool" where
  \<comment> \<open>\<open>x >= t\<close> for a finite \<open>t\<close>\<close>
  "greaterEq x t = (case x of Number a \<Rightarrow> a \<ge> t | _ \<Rightarrow> False)"

definition strictEq :: "slot option \<Rightarrow> number \<Rightarrow> bool" where
  \<comment> \<open>\<open>agreementCounts[key] === maxAgreement\<close>\<close>
  "strictEq v m = (case (v, m) of (Some (Count n), Number a) \<Rightarrow> real n = a | _ \<Rightarrow> False)"

record ConsensusResult =
  hasConsensus :: bool
  consensusText :: "string option"

definition normalized :: "AdvisorResponse \<Rightarrow> string" where
  \<comment> \<open>\<open>r.response.toLowerCase().trim()\<close>\<close>
  "normalized r = trim (toLowerCase (response r))"

definition checkConsensus :: "AdvisorResponse list \<Rightarrow> real \<Rightarrow> ConsensusResult" where
  "checkConsensus rs threshold =
     (if length rs < 2 then \<lparr>hasConsensus = False, consensusText = None\<rparr>
      else
        let responseTexts = map normalized rs;
            uniqueResponses = remdups responseTexts
        in if length uniqueResponses = 1
           then \<lparr>hasConsensus = True, consensusText = Some (response (hd rs))\<rparr>
           else
             let agreementCounts = foldl countResponse [] responseTexts;
                 maxAgreement = Math_max (objectValues agreementCounts);
                 agreementRatio = divideBy maxAgreement (length rs)
             in if greaterEq agreementRatio threshold
                then
                  let majority = find (\<lambda>key. strictEq (map_of agreementCounts key) maxAgreement)
                                   (objectKeys agreementCounts);
                      consensusResponse = find (\<lambda>r. Some (normalized r) = majority) rs
                  in \<lparr>hasConsensus = True,
                      consensusText = map_option response consensusResponse\<rparr>
                else \<lparr>hasConsensus = False, consensusText = None\<rparr>)"

section \<open>Parsing a parameters object\<close>

text \<open>
  \<open>JSON.parse\<close>, as far as the directive parser needs it: the JSON grammar over the
  texts of the model. The white space of JSON is TAB, LF, CR and SPACE only. The
  recursion on nested values runs on a counter; a text of \<open>n\<close> characters never needs
  more than \<open>n + 1\<close>: whatever a larger counter accepts, \<open>JSON_parse\<close> accepts
  (lemma \<open>JSON_parse_any_fuel\<close>). The members of an object are kept in the order of
  the text; where a key occurs twice the object of the program holds the later value.
\<close>

definition isJsonWs :: "char \<Rightarrow> bool" where
  "isJsonWs c = (let n = (of_char c :: nat) in n = 9 \<or> n = 10 \<or> n = 13 \<or> n = 32)"

definition skipWs :: "string \<Rightarrow> string" where
  "skipWs s = dropWhile isJsonWs s"

definition hexValue :: "char \<Rightarrow> nat option" where
  "hexValue c =
     (let n = (of_char c :: nat)
      in if 48 \<le> n \<and> n \<le> 57 then Some (n - 48)
         else if 65 \<le> n \<and> n \<le> 70 then Some (n - 55)
         else if 97 \<le> n \<and> n \<le> 102 then Some (n - 87)
         else None)"

definition escapeValue :: "char \<Rightarrow> nat option" where
  \<comment> \<open>the single-character escapes: quote, backslash, slash, b, f, n, r, t\<close>
  "escapeValue c =
     (let n = (of_char c :: nat)
      in if n = 34 \<or> n = 92 \<or> n = 47 then Some n
         else if n = 98 then Some 8
         else if n = 102 then Some 12
         else if n = 110 then Some 10
         else if n = 114 then Some 13
         else if n = 116 then Some 9
         else None)"

fun parseChars :: "string \<Rightarrow> nat list \<Rightarrow> (nat list \<times> string) option" where
  "parseChars [] acc = None"
| "parseChars (c # s) acc =
     (if c = CHR 0x22 then Some (acc, s)
      else if c = CHR 0x5C then
        (case s of
           [] \<Rightarrow> None
         | e # s1 \<Rightarrow>
             if e = CHR ''u'' then
               (case s1 of
                  h1 # h2 # h3 # h4 # s2 \<Rightarrow>
                    (case (hexValue h1, hexValue h2, hexValue h3, hexValue h4) of
                       (Some a, Some b, Some c, Some d) \<Rightarrow>
                         parseChars s2 (acc @ [((a * 16 + b) * 16 + c) * 16 + d])
                     | _ \<Rightarrow> None)
                | _ \<Rightarrow> None)
             else
               (case escapeValue e of
                  Some n \<Rightarrow> parseChars s1 (acc @ [n])
                | None \<Rightarrow> None))
      else if (of_char c :: nat) < 32 then None
      else parseChars s (acc @ [of_char c]))"

definition takeDigits :: "string \<Rightarrow> (string \<times> string) option" where
  \<comment> \<open>one digit or more\<close>
  "takeDigits s =
     (if takeWhile isDigit s = [] then None
      else Some (takeWhile isDigit s, dropWhile isDigit s))"

definition parseInt :: "string \<Rightarrow> (string \<times> string) option" where
  \<comment> \<open>\<open>0\<close>, or digits that do not start with \<open>0\<close>\<close>
  "parseInt s =
     (case s of
        [] \<Rightarrow> None
      | c # r \<Rightarrow> if c = CHR ''0'' then Some (''0'', r) else takeDigits s)"

definition parseFrac :: "string \<Rightarrow> (string \<times> string) option" where
  "parseFrac s =
     (case s of
        [] \<Rightarrow> Some ([], s)
      | c # r \<Rightarrow>
          if c = CHR ''.'' then map_option (\<lambda>(ds, r'). (c # ds, r')) (takeDigits r)
          else Some ([], s))"

definition parseExp :: "string \<Rightarrow> (string \<times> string) option" where
  "parseExp s =
     (case s of
        [] \<Rightarrow> Some ([], s)
      | c # r \<Rightarrow>
          if c = CHR ''e'' \<or> c = CHR ''E'' then
            (case r of
               [] \<Rightarrow> None
             | g # r1 \<Rightarrow>
                 if g = CHR ''+'' \<or> g = CHR ''-''
                 then map_option (\<lambda>(ds, r'). (c # g # ds, r')) (takeDigits r1)
                 else map_option (\<lambda>(ds, r'). (c # ds, r')) (takeDigits r))
          else Some ([], s))"

definition parseNumber :: "string \<Rightarrow> (json \<times> string) option" where
  "parseNumber s =
     (let (sign, s0) = (case s of [] \<Rightarrow> ([], s)
                        | c # r \<Rightarrow> if c = CHR ''-'' then ([c], r) else ([], s))
      in case parseInt s0 of
           None \<Rightarrow> None
         | Some (i, s1) \<Rightarrow>
             (case parseFrac s1 of
                None \<Rightarrow> None
              | Some (f, s2) \<Rightarrow>
                  (case parseExp s2 of
                     None \<Rightarrow> None
                   | Some (e, s3) \<Rightarrow> Some (JNumber (sign @ i @ f @ e), s3))))"

fun stripPrefix :: "string \<Rightarrow> string \<Rightarrow> string option" where
  "stripPrefix [] s = Some s"
| "stripPrefix (c # l) [] = None"
| "stripPrefix (c # l) (d # s) = (if c = d then stripPrefix l s else None)"

definition parseLiteral :: "string \<Rightarrow> (json \<times> string) option" where
  "parseLiteral s =
     (case stripPrefix ''true'' s of
        Some r \<Rightarrow> Some (JBool True, r)
      | None \<Rightarrow>
          (case stripPrefix ''false'' s of
             Some r \<Rightarrow> Some (JBool False, r)
           | None \<Rightarrow>
               (case stripPrefix ''null'' s of
                  Some r \<Rightarrow> Some (JNull, r)
                | None \<Rightarrow> parseNumber s)))"

fun parseValue :: "nat \<Rightarrow> string \<Rightarrow> (json \<times> string) option"
  and parseElements :: "nat \<Rightarrow> string \<Rightarrow> json list \<Rightarrow> (json \<times> string) option"
  and parseMembers :: "nat \<Rightarrow> string \<Rightarrow> (nat list \<times> json) list \<Rightarrow> (json \<times> string) option"
where
  "parseValue 0 s = None"
| "parseValue (Suc k) s =
     (case skipWs s of
        [] \<Rightarrow> None
      | c # r \<Rightarrow>
          if c = CHR ''{'' then
            (case skipWs r of
               [] \<Rightarrow> None
             | d # r' \<Rightarrow> if d = CHR ''}'' then Some (JObject [], r') else parseMembers k r [])
          else if c = CHR ''['' then
            (case skipWs r of
               [] \<Rightarrow> None
             | d # r' \<Rightarrow> if d = CHR '']'' then Some (JArray [], r') else parseElements k r [])
          else if c = CHR 0x22 then map_option (\<lambda>(cs, r'). (JString cs, r')) (parseChars r [])
          else parseLiteral (c # r))"
| "parseElements 0 s acc = None"
| "parseElements (Suc k) s acc =
     (case parseValue k s of
        None \<Rightarrow> None
      | Some (v, r) \<Rightarrow>
          (case skipWs r of
             [] \<Rightarrow> None
           | c # r' \<Rightarrow>
               if c = CHR '','' then parseElements k r' (acc @ [v])
               else if c = CHR '']'' then Some (JArray (acc @ [v]), r')
               else None))"
| "parseMembers 0 s acc = None"
| "parseMembers (Suc k) s acc =
     (case skipWs s of
        [] \<Rightarrow> None
      | q # r \<Rightarrow>
          if q = CHR 0x22 then
            (case parseChars r [] of
               None \<Rightarrow> None
             | Some (key, r1) \<Rightarrow>
                 (case skipWs r1 of
                    [] \<Rightarrow> None
                  | c # r2 \<Rightarrow>
                      if c = CHR '':'' then
                        (case parseValue k r2 of
                           None \<Rightarrow> None
                         | Some (v, r3) \<Rightarrow>
                             (case skipWs r3 of
                                [] \<Rightarrow> None
                              | d # r4 \<Rightarrow>
                                  if d = CHR '','' then parseMembers k r4 (acc @ [(key, v)])
                                  else if d = CHR ''}'' then Some (JObject (acc @ [(key, v)]), r4)
                                  else None))
                      else None))
          else None)"

definition JSON_parse :: "string \<Rightarrow> json option" where
  \<comment> \<open>\<open>None\<close> stands for the \<open>SyntaxError\<close> that \<open>JSON.parse\<close> throws\<close>
  "JSON_parse s =
     (case parseValue (Suc (length s)) s of
        None \<Rightarrow> None
      | Some (v, r) \<Rightarrow> if skipWs r = [] then Some v else None)"

section \<open>The directive pattern\<close>

text \<open>
  The pattern of \<open>parseToolRequests\<close> is a sequence of literals and of greedy
  repetitions of a character class. \<open>matchHere\<close> is the backtracking match of such a
  sequence at the start of a text: a repetition takes as many characters as it can and
  gives them back one at a time while the rest of the sequence fails. The result lists
  the text each node consumed, and the text left.
\<close>

datatype cclass = Space | NotQuote | NotBrace

fun inClass :: "cclass \<Rightarrow> char \<Rightarrow> bool" where
  "inClass Space c = isWhiteSpace c"
| "inClass NotQuote c = (c \<noteq> CHR 0x22)"
| "inClass NotBrace c = (c \<noteq> CHR ''}'')"

datatype node = Lit string | Star cclass | Plus cclass

primrec firstSome :: "('a \<Rightarrow> 'b option) \<Rightarrow> 'a list \<Rightarrow> 'b option" where
  "firstSome f [] = None"
| "firstSome f (x # xs) = (case f x of Some y \<Rightarrow> Some y | None \<Rightarrow> firstSome f xs)"

definition repetitions :: "cclass \<Rightarrow> nat \<Rightarrow> string \<Rightarrow> nat list" where
  \<comment> \<open>the lengths a greedy repetition tries, longest first, down to \<open>least\<close>\<close>
  "repetitions cls least s = rev [least..<Suc (length (takeWhile (inClass cls) s))]"

definition consumed :: "string \<Rightarrow> (string list \<times> string) option \<Rightarrow> (string list \<times> string) option" where
  "consumed seg r = map_option (\<lambda>(segs, rest). (seg # segs, rest)) r"

primrec matchHere :: "node list \<Rightarrow> string \<Rightarrow> (string list \<times> string) option" where
  "matchHere [] s = Some ([], s)"
| "matchHere (n # ns) s =
     (case n of
        Lit l \<Rightarrow>
          (case stripPrefix l s of
             None \<Rightarrow> None
           | Some r \<Rightarrow> consumed l (matchHere ns r))
      | Star cls \<Rightarrow>
          firstSome (\<lambda>k. consumed (take k s) (matchHere ns (drop k s))) (repetitions cls 0 s)
      | Plus cls \<Rightarrow>
          firstSome (\<lambda>k. consumed (take k s) (matchHere ns (drop k s))) (repetitions cls 1 s))"

definition toolRegex :: "node list" where
  \<open>toolRegex =
     [Lit ''TOOL_REQUEST:'', Star Space, Lit ''{'', Star Space,
      Lit ''"tool":'', Star Space, Lit ''"'', Plus NotQuote, Lit ''"'', Star Space,
      Lit '','', Star Space,
      Lit ''"parameters":'', Star Space, Lit ''{'', Plus NotBrace, Lit ''}'', Star Space,
      Lit '','', Star Space,
      Lit ''"reason":'', Star Space, Lit ''"'', Plus NotQuote, Lit ''"'', Star Space,
      Lit ''}'']\<close>

definition groups :: "string list \<Rightarrow> string list" where
  \<comment> \<open>\<open>match[0]\<close> .. \<open>match[3]\<close> from the texts the 27 nodes consumed\<close>
  "groups segs = [concat segs, segs ! 7, segs ! 14 @ segs ! 15 @ segs ! 16, segs ! 23]"

text \<open>
  \<open>toolRegex.exec(response)\<close> with the \<open>g\<close> flag searches from \<open>lastIndex\<close> for the
  leftmost match and moves \<open>lastIndex\<close> behind it. The pattern looks neither behind nor
  ahead, so the state of the scan is the text from \<open>lastIndex\<close> on.
\<close>

fun exec :: "string \<Rightarrow> (string list \<times> string) option" where
  "exec s =
     (case matchHere toolRegex s of
        Some (segs, rest) \<Rightarrow> Some (groups segs, rest)
      | None \<Rightarrow> (case s of [] \<Rightarrow> None | c # s' \<Rightarrow> exec s'))"

lemma stripPrefix_Some: "stripPrefix l s = Some r \<Longrightarrow> s = l @ r"
  by (induction l s rule: stripPrefix.induct) (auto split: if_splits)

lemma stripPrefix_append: "stripPrefix l (l @ r) = Some r"
  by (induction l) auto

lemma firstSome_Some: "firstSome f xs = Some y \<Longrightarrow> \<exists>x \<in> set xs. f x = Some y"
  by (induction xs) (auto split: option.splits)

lemma consumed_Some:
  "consumed seg r = Some (segs, rest) \<Longrightarrow> \<exists>segs'. segs = seg # segs' \<and> r = Some (segs', rest)"
  by (cases r) (auto simp: consumed_def)

lemma matchHere_concat:
  "matchHere ns s = Some (segs, rest) \<Longrightarrow> s = concat segs @ rest \<and> length segs = length ns"
proof (induction ns arbitrary: s segs rest)
  case Nil
  then show ?case by simp
next
  case (Cons n ns)
  show ?case
  proof (cases n)
    case (Lit l)
    with Cons.prems obtain r where r: "stripPrefix l s = Some r"
      and c: "consumed l (matchHere ns r) = Some (segs, rest)"
      by (auto split: option.splits)
    from c obtain segs' where "segs = l # segs'" "matchHere ns r = Some (segs', rest)"
      by (blast dest: consumed_Some)
    with Cons.IH [of r segs' rest] stripPrefix_Some [OF r] show ?thesis by simp
  next
    case (Star cls)
    with Cons.prems obtain k
      where "consumed (take k s) (matchHere ns (drop k s)) = Some (segs, rest)"
      by (auto dest: firstSome_Some)
    then obtain segs' where "segs = take k s # segs'" "matchHere ns (drop k s) = Some (segs', rest)"
      by (blast dest: consumed_Some)
    with Cons.IH [of "drop k s" segs' rest]
    have "concat segs @ rest = take k s @ drop k s" "length segs = length (n # ns)"
      by simp_all
    then show ?thesis by simp
  next
    case (Plus cls)
    with Cons.prems obtain k
      where "consumed (take k s) (matchHere ns (drop k s)) = Some (segs, rest)"
      by (auto dest: firstSome_Some)
    then obtain segs' where "segs = take k s # segs'" "matchHere ns (drop k s) = Some (segs', rest)"
      by (blast dest: consumed_Some)
    with Cons.IH [of "drop k s" segs' rest]
    have "concat segs @ rest = take k s @ drop k s" "length segs = length (n # ns)"
      by simp_all
    then show ?thesis by simp
  qed
qed

lemma matchHere_Lit_shorter:
  assumes "matchHere (Lit (c # l) # ns) s = Some (segs, rest)"
  shows "length rest < length s"
proof -
  from assms obtain r where r: "stripPrefix (c # l) s = Some r"
    and m: "consumed (c # l) (matchHere ns r) = Some (segs, rest)"
    by (auto split: option.splits)
  from m obtain segs' where "matchHere ns r = Some (segs', rest)"
    by (blast dest: consumed_Some)
  then have "r = concat segs' @ rest" by (simp add: matchHere_concat)
  then have "length rest \<le> length r" by (metis length_append le_add2)
  with stripPrefix_Some [OF r] show ?thesis by simp
qed

lemma toolRegex_head: "toolRegex = Lit ''TOOL_REQUEST:'' # tl toolRegex"
  by (simp add: toolRegex_def)

lemma toolRegex_shorter: "matchHere toolRegex s = Some (segs, rest) \<Longrightarrow> length rest < length s"
  by (subst (asm) toolRegex_head) (rule matchHere_Lit_shorter)

lemma exec_shorter: "exec s = Some (m, rest) \<Longrightarrow> length rest < length s"
proof (induction s rule: exec.induct)
  case (1 s)
  show ?case
  proof (cases "matchHere toolRegex s")
    case (Some p)
    with "1.prems" show ?thesis
      by (cases p) (auto dest: toolRegex_shorter)
  next
    case None
    show ?thesis
    proof (cases s)
      case Nil
      with None "1.prems" show ?thesis by simp
    next
      case (Cons c s')
      with None "1.prems" have "exec s' = Some (m, rest)" by simp
      with "1.IH" [OF None Cons] Cons show ?thesis by simp
    qed
  qed
qed

declare exec.simps [simp del]

section \<open>The directive parser\<close>

text \<open>
  \<open>parseToolRequests\<close> returns the requests it pushed; the second component lists the
  warnings it printed with \<open>console.warn\<close>, one for each match whose parameters
  \<open>JSON.parse\<close> rejected.
\<close>

function parseLoop :: "string \<Rightarrow> ToolRequest list \<Rightarrow> string list \<Rightarrow> ToolRequest list \<times> string list" where
  "parseLoop s requests warnings =
     (case exec s of
        None \<Rightarrow> (requests, warnings)
      | Some (m, rest) \<Rightarrow>
          (case JSON_parse (m ! 2) of
             Some ps \<Rightarrow>
               parseLoop rest (requests @ [\<lparr>tool = m ! 1, parameters = ps, reason = m ! 3\<rparr>]) warnings
           | None \<Rightarrow>
               parseLoop rest requests (warnings @ [''Failed to parse tool request: '' @ m ! 0])))"
  by pat_completeness auto
termination
  by (relation "measure (\<lambda>(s, requests, warnings). length s)") (auto dest: exec_shorter)

declare parseLoop.simps [simp del]

definition parseToolRequests :: "string \<Rightarrow> ToolRequest list \<times> string list" where
  "parseToolRequests responseText = parseLoop responseText [] []"

section \<open>Run input and validation\<close>

text \<open>
  The argument of \<open>processConsensus\<close> has type \<open>unknown\<close>: any value a JSON request
  can carry, or \<open>undefined\<close> when the request has no arguments. An object is the list
  of its own properties. Reading a property of \<open>undefined\<close> or \<open>null\<close> throws a
  \<open>TypeError\<close>, whose message is the engine's; every other read of a missing property
  gives \<open>undefined\<close>.
\<close>

datatype jsvalue =
    JSUndefined
  | JSNull
  | JSBoolean bool
  | JSNumber real
  | JSString string
  | JSArray "jsvalue list"
  | JSObject "(string \<times> jsvalue) list"

datatype failure = Error string | TypeError

definition getProperty :: "jsvalue \<Rightarrow> string \<Rightarrow> failure + jsvalue" where
  "getProperty v key =
     (case v of
        JSUndefined \<Rightarrow> Inl TypeError
      | JSNull \<Rightarrow> Inl TypeError
      | JSObject props \<Rightarrow> Inr (case map_of props key of Some x \<Rightarrow> x | None \<Rightarrow> JSUndefined)
      | _ \<Rightarrow> Inr JSUndefined)"

fun truthy :: "jsvalue \<Rightarrow> bool" where
  "truthy JSUndefined = False"
| "truthy JSNull = False"
| "truthy (JSBoolean b) = b"
| "truthy (JSNumber x) = (x \<noteq> 0)"
| "truthy (JSString s) = (s \<noteq> [])"
| "truthy (JSArray xs) = True"
| "truthy (JSObject ps) = True"

record ConsensusData =
  problem :: string
  availableTools :: "jsvalue list"

definition validateConsensusData :: "jsvalue \<Rightarrow> failure + ConsensusData" where
  "validateConsensusData input =
     (case getProperty input ''problem'' of
        Inl e \<Rightarrow> Inl e
      | Inr p \<Rightarrow>
          (case (truthy p, p) of
             (True, JSString problemText) \<Rightarrow>
               (case getProperty input ''availableTools'' of
                  Inl e \<Rightarrow> Inl e
                | Inr t \<Rightarrow>
                    (case (truthy t, t) of
                       (True, JSArray tools) \<Rightarrow>
                         Inr \<lparr>problem = problemText, availableTools = tools\<rparr>
                     | _ \<Rightarrow> Inl (Error ''Invalid availableTools: must be an array'')))
           | _ \<Rightarrow> Inl (Error ''Invalid problem: must be a string'')))"

text \<open>
  The prompt of the first round holds \<open>validatedInput.availableTools.join(', ')\<close>,
  which converts every element of the array to a string: \<open>undefined\<close> and \<open>null\<close>
  give the empty string, an array is joined in turn, and an object is converted through
  its \<open>toString\<close> and \<open>valueOf\<close>. No value of a request is callable, so an own
  property \<open>toString\<close> hides the inherited method, and \<open>valueOf\<close> is either an own
  property that cannot be called or the inherited method, which returns the object: the
  conversion throws a \<open>TypeError\<close>. Every other object becomes
  \<open>[object Object]\<close>. The text of the prompt decides nothing in the run; whether
  building it throws does.
\<close>

fun toStringThrows :: "jsvalue \<Rightarrow> bool" where
  "toStringThrows (JSObject props) = (map_of props ''toString'' \<noteq> None)"
| "toStringThrows (JSArray xs) = list_ex toStringThrows xs"
| "toStringThrows JSUndefined = False"
| "toStringThrows JSNull = False"
| "toStringThrows (JSBoolean b) = False"
| "toStringThrows (JSNumber x) = False"
| "toStringThrows (JSString s) = False"

definition joinThrows :: "jsvalue list \<Rightarrow> bool" where
  "joinThrows xs = list_ex toStringThrows xs"

definition initialPrompt :: "jsvalue list \<Rightarrow> nat \<Rightarrow> failure option" where
  \<comment> \<open>building the prompt of round \<open>n\<close>: the error thrown, if any; only round 1 joins the tools\<close>
  "initialPrompt tools n = (if n = 1 \<and> joinThrows tools then Some TypeError else None)"

section \<open>The advisors and the provider\<close>

text \<open>
  The five advisors of the constructor share one system prompt, taken here as a
  parameter. The answers of the provider are an input of the model: \<open>api n advisor\<close>
  is how the request made for \<open>advisor\<close> while round \<open>n\<close> of the ledger is being
  produced settles, either rejected (with the message of the error) or with the
  content of the first choice, which may be missing. The text of the prompt, built
  from the problem and the ledger, decides nothing else and is not modelled.
\<close>

definition preConfiguredAdvisors :: "string \<Rightarrow> AdvisorConfig list" where
  "preConfiguredAdvisors prompt =
     [\<lparr>idOf = ''advisor_alpha'', name = ''Advisor Alpha'', systemPrompt = prompt,
        model = ''moonshotai/kimi-k2''\<rparr>,
      \<lparr>idOf = ''advisor_beta'', name = ''Advisor Beta'', systemPrompt = prompt,
        model = ''deepseek/deepseek-chat-v3-0324''\<rparr>,
      \<lparr>idOf = ''advisor_gamma'', name = ''Advisor Gamma'', systemPrompt = prompt,
        model = ''z-ai/glm-4.5''\<rparr>,
      \<lparr>idOf = ''advisor_delta'', name = ''Advisor Delta'', systemPrompt = prompt,
        model = ''openai/gpt-4.1''\<rparr>,
      \<lparr>idOf = ''advisor_epsilon'', name = ''Advisor Epsilon'', systemPrompt = prompt,
        model = ''anthropic/claude-sonnet-4''\<rparr>]"

datatype completion = Rejected string | Content "string option"

type_synonym provider = "nat \<Rightarrow> AdvisorConfig \<Rightarrow> completion"

definition queryAdvisor :: "provider \<Rightarrow> nat \<Rightarrow> AdvisorConfig \<Rightarrow> string + string" where
  \<comment> \<open>\<open>Inl\<close>: the request threw; \<open>Inr\<close>: \<open>content || 'No response received'\<close>\<close>
  "queryAdvisor api n advisor =
     (case api n advisor of
        Rejected e \<Rightarrow> Inl e
      | Content None \<Rightarrow> Inr ''No response received''
      | Content (Some t) \<Rightarrow> Inr (if t = [] then ''No response received'' else t))"

section \<open>The round orchestrator\<close>

text \<open>
  The fields of the instance that the run reads: the round limit and the threshold, which
  the constructor takes from the environment and checks (a limit from 1 to 10, a
  threshold in the unit interval), and the advisors (\<open>this.preConfiguredAdvisors\<close>).
  The theorems hold for any limit, threshold and list of advisors.

  The requests of a round are started together and joined with \<open>Promise.allSettled\<close>,
  which returns their outcomes in the order of the advisors, whatever the order in which
  they settle; the loop over the outcomes is \<open>collectResult\<close> folded over that list.
\<close>

record ConsensusServer =
  maxRounds :: nat
  consensusThreshold :: real
  advisors :: "AdvisorConfig list"

datatype 'a settled = Fulfilled 'a | RejectedPromise string

definition advisorTask :: "provider \<Rightarrow> nat \<Rightarrow> AdvisorConfig \<Rightarrow> (string \<times> string \<times> ToolRequest list) settled" where
  \<comment> \<open>the async function mapped over the advisors: its \<open>catch\<close> leaves nothing to reject\<close>
  "advisorTask api n advisor =
     (case queryAdvisor api n advisor of
        Inr responseText \<Rightarrow>
          Fulfilled (idOf advisor, responseText, fst (parseToolRequests responseText))
      | Inl e \<Rightarrow> Fulfilled (idOf advisor, ''Error querying advisor: '' @ e, []))"

definition collectResult ::
  "AdvisorResponse list \<times> ToolRequest list \<Rightarrow> (string \<times> string \<times> ToolRequest list) settled
     \<Rightarrow> AdvisorResponse list \<times> ToolRequest list" where
  "collectResult acc result =
     (case (acc, result) of
        ((rs, allToolRequests), Fulfilled (i, t, reqs)) \<Rightarrow>
          (rs @ [\<lparr>advisorId = i, response = t,
                   toolRequests = (if length reqs > 0 then Some reqs else None)\<rparr>],
           allToolRequests @ reqs)
      | ((rs, allToolRequests), RejectedPromise why) \<Rightarrow>
          (rs @ [\<lparr>advisorId = ''unknown'', response = ''Advisor failed: '' @ why,
                   toolRequests = None\<rparr>],
           allToolRequests))"

definition queryAll :: "ConsensusServer \<Rightarrow> provider \<Rightarrow> nat \<Rightarrow> AdvisorResponse list \<times> ToolRequest list" where
  "queryAll srv api n = foldl collectResult ([], []) (map (advisorTask api n) (advisors srv))"

datatype summary = Summary nat "string list" "(string \<times> string) list"
  \<comment> \<open>\<open>totalRounds\<close>, \<open>participants\<close>, \<open>keyPoints\<close>\<close>

definition generateDiscussionSummary :: "DiscussionRound list \<Rightarrow> summary" where
  "generateDiscussionSummary history =
     Summary (length history)
       (case history of [] \<Rightarrow> [] | r # _ \<Rightarrow> map advisorId (responses r))
       (concat (map (\<lambda>r. map (\<lambda>a. (advisorId a, substring0 150 (response a))) (responses r))
                  history))"

text \<open>
  The object that \<open>processConsensus\<close> serialises into its reply, one constructor for
  each shape; the reply has \<open>isError\<close> set for the last one only.
\<close>

datatype payload =
    Completed (status: string) (finalConsensus: string) (totalRounds: nat)
      (discussionHistory: "DiscussionRound list")
      (finalSummaryVariations: "(string \<times> string) list") (requesterGuidance: string)
  | Concluded (status: string) (finalConsensus: string) (totalRounds: nat)
      (discussionHistory: "DiscussionRound list")
  | ToolRequestsNeeded (status: string) (roundReached: nat) (requested: "ToolRequest list")
      (discussionSummary: summary) (nextAction: string)
  | Failed (error: failure) (status: string)

text \<open>
  How the loop is left, with the ledger at that moment: through its condition or
  \<open>break\<close>, with the value of \<open>finalConsensus\<close>; through \<open>return\<close>, with the reply;
  or through an exception, which the \<open>catch\<close> of \<open>processConsensus\<close> turns into the
  reply \<open>failed\<close>.
\<close>

datatype loopExit =
    Leave "DiscussionRound list" "string option"
  | Return payload "DiscussionRound list"
  | Throw failure "DiscussionRound list"

definition isSet :: "string option \<Rightarrow> bool" where
  \<comment> \<open>the truth value of \<open>finalConsensus\<close>: \<open>undefined\<close> and the empty string are false\<close>
  "isSet c = (case c of None \<Rightarrow> False | Some t \<Rightarrow> t \<noteq> [])"

function roundLoop ::
  "ConsensusServer \<Rightarrow> provider \<Rightarrow> ConsensusData \<Rightarrow> nat \<Rightarrow> DiscussionRound list
     \<Rightarrow> string option \<Rightarrow> loopExit" where
  "roundLoop srv api validatedInput n history finalCons =
     (if n \<le> maxRounds srv \<and> \<not> isSet finalCons then
        (case initialPrompt (availableTools validatedInput) n of
           Some e \<Rightarrow> Throw e history
         | None \<Rightarrow>
             (let (rs, allToolRequests) = queryAll srv api n;
                  consensusResult = checkConsensus rs (consensusThreshold srv);
                  discussionRound = \<lparr>roundNo = n, responses = rs,
                                      consensus = consensusText consensusResult\<rparr>;
                  history' = history @ [discussionRound]
              in if hasConsensus consensusResult
                 then Leave history' (consensusText consensusResult)
                 else if length allToolRequests > 0 then
                   Return (ToolRequestsNeeded ''tool_requests_needed'' n allToolRequests
                             (generateDiscussionSummary history')
                             ''Please execute the requested tools and continue the consensus process'')
                          history'
                 else roundLoop srv api validatedInput (n + 1) history' finalCons))
      else Leave history finalCons)"
  by pat_completeness auto
termination
  by (relation "measure (\<lambda>(srv, api, validatedInput, n, history, finalCons). Suc (maxRounds srv) - n)")
     auto

declare roundLoop.simps [simp del]

definition summaryTask :: "provider \<Rightarrow> nat \<Rightarrow> AdvisorConfig \<Rightarrow> (string \<times> string) settled" where
  "summaryTask api n advisor =
     (case queryAdvisor api n advisor of
        Inr s \<Rightarrow> Fulfilled (idOf advisor, s)
      | Inl e \<Rightarrow> Fulfilled (idOf advisor, ''Error generating summary: '' @ e))"

definition collectSummary ::
  "AdvisorResponse list \<times> (string \<times> string) list \<Rightarrow> (string \<times> string) settled
     \<Rightarrow> AdvisorResponse list \<times> (string \<times> string) list" where
  "collectSummary acc res =
     (case (acc, res) of
        ((summaryResponses, variations), Fulfilled (i, s)) \<Rightarrow>
          (summaryResponses @ [\<lparr>advisorId = i, response = s, toolRequests = None\<rparr>],
           variations @ [(i, s)])
      | ((summaryResponses, variations), RejectedPromise why) \<Rightarrow>
          (summaryResponses, variations @ [(''unknown'', ''Summary failed: '' @ why)]))"

definition summaryPass ::
  "ConsensusServer \<Rightarrow> provider \<Rightarrow> DiscussionRound list \<Rightarrow> string option
     \<Rightarrow> payload \<times> DiscussionRound list" where
  "summaryPass srv api history finalCons =
     (let (summaryResponses, variations) =
            foldl collectSummary ([], [])
              (map (summaryTask api (length history + 1)) (advisors srv));
          history' = history @ [\<lparr>roundNo = length history + 1, responses = summaryResponses,
                                  consensus = finalCons\<rparr>]
      in (Completed
            (if isSet finalCons then ''consensus_reached'' else ''max_rounds_reached'')
            (if isSet finalCons then the finalCons
             else ''No consensus reached within the maximum number of rounds'')
            (length history') history' variations
            ''If the consensus includes source code or requests a code artifact, please provide the full source code in your final answer (do not truncate).'',
          history'))"

text \<open>
  \<open>processConsensus\<close> takes the ledger the instance holds from its last run and returns
  the reply with the ledger it leaves behind. A failed validation throws before the
  ledger is reset; an exception in the loop is caught with the ledger as the loop left
  it, and the reply is \<open>failed\<close> with the message of the error.
\<close>

definition processConsensus ::
  "ConsensusServer \<Rightarrow> provider \<Rightarrow> DiscussionRound list \<Rightarrow> jsvalue
     \<Rightarrow> payload \<times> DiscussionRound list" where
  "processConsensus srv api old input =
     (case validateConsensusData input of
        Inl e \<Rightarrow> (Failed e ''failed'', old)
      | Inr validatedInput \<Rightarrow>
          (case roundLoop srv api validatedInput 1 [] None of
             Return reply history \<Rightarrow> (reply, history)
           | Throw e history \<Rightarrow> (Failed e ''failed'', history)
           | Leave history finalCons \<Rightarrow> summaryPass srv api history finalCons))"

section \<open>The variant of src/index.ts\<close>

text \<open>
  \<open>src/index.ts\<close> holds a variant of the server: the round limit and the threshold
  are fields of the run input, the advisors are queried one after the other with no
  \<open>catch\<close> around the query, so that a request that throws ends the run in the outer
  \<open>catch\<close>, and no summary round follows the loop. The prompt of the first round is
  built in the same way. \<open>parseToolRequests\<close>,
  \<open>checkConsensus\<close> and \<open>generateDiscussionSummary\<close> are the same text in both.
  The definitions of this variant carry the suffix \<open>_v1\<close>.
\<close>

datatype ConsensusData_v1 =
  ConsensusData_v1 (problem_v1: string) (availableTools_v1: "jsvalue list")
    (maxRounds_v1: real) (consensusThreshold_v1: real)

definition validateConsensusData_v1 :: "jsvalue \<Rightarrow> failure + ConsensusData_v1" where
  "validateConsensusData_v1 input =
     (case validateConsensusData input of
        Inl e \<Rightarrow> Inl e
      | Inr d \<Rightarrow>
          (case getProperty input ''maxRounds'' of
             Inl e \<Rightarrow> Inl e
           | Inr m \<Rightarrow>
               (case (truthy m, m) of
                  (True, JSNumber limit) \<Rightarrow>
                    if limit < 1 then Inl (Error ''Invalid maxRounds: must be a number >= 1'')
                    else
                      (case getProperty input ''consensusThreshold'' of
                         Inl e \<Rightarrow> Inl e
                       | Inr c \<Rightarrow>
                           (case (truthy c, c) of
                              (True, JSNumber t) \<Rightarrow>
                                if t < 0 \<or> t > 1
                                then Inl (Error ''Invalid consensusThreshold: must be a number between 0 and 1'')
                                else Inr (ConsensusData_v1 (problem d) (availableTools d) limit t)
                            | _ \<Rightarrow> Inl (Error ''Invalid consensusThreshold: must be a number between 0 and 1'')))
                | _ \<Rightarrow> Inl (Error ''Invalid maxRounds: must be a number >= 1''))))"

fun queryEach_v1 ::
  "provider \<Rightarrow> nat \<Rightarrow> AdvisorConfig list \<Rightarrow> AdvisorResponse list \<times> ToolRequest list
     \<Rightarrow> string + AdvisorResponse list \<times> ToolRequest list" where
  "queryEach_v1 api n [] acc = Inr acc"
| "queryEach_v1 api n (advisor # rest) acc =
     (case queryAdvisor api n advisor of
        Inl e \<Rightarrow> Inl e
      | Inr responseText \<Rightarrow>
          (let reqs = fst (parseToolRequests responseText)
           in queryEach_v1 api n rest
                (fst acc @ [\<lparr>advisorId = idOf advisor, response = responseText,
                              toolRequests = (if length reqs > 0 then Some reqs else None)\<rparr>],
                 snd acc @ reqs)))"

function roundLoop_v1 ::
  "AdvisorConfig list \<Rightarrow> provider \<Rightarrow> ConsensusData_v1 \<Rightarrow> nat \<Rightarrow> DiscussionRound list
     \<Rightarrow> string option \<Rightarrow> loopExit" where
  "roundLoop_v1 as api v n history finalCons =
     (if real n \<le> maxRounds_v1 v \<and> \<not> isSet finalCons then
        (case initialPrompt (availableTools_v1 v) n of
           Some e \<Rightarrow> Throw e history
         | None \<Rightarrow>
             (case queryEach_v1 api n as ([], []) of
                Inl e \<Rightarrow> Throw (Error e) history
              | Inr (rs, allToolRequests) \<Rightarrow>
                  (let consensusResult = checkConsensus rs (consensusThreshold_v1 v);
                       discussionRound = \<lparr>roundNo = n, responses = rs,
                                           consensus = consensusText consensusResult\<rparr>;
                       history' = history @ [discussionRound]
                   in if hasConsensus consensusResult
                      then Leave history' (consensusText consensusResult)
                      else if length allToolRequests > 0 then
                        Return (ToolRequestsNeeded ''tool_requests_needed'' n allToolRequests
                                  (generateDiscussionSummary history')
                                  ''Please execute the requested tools and continue the consensus process'')
                               history'
                      else roundLoop_v1 as api v (n + 1) history' finalCons)))
      else Leave history finalCons)"
  by pat_completeness auto
termination
  by (relation "measure (\<lambda>(as, api, v, n, history, finalCons). Suc (nat \<lfloor>maxRounds_v1 v\<rfloor>) - n)")
     (auto simp: le_nat_floor Suc_diff_le)

declare roundLoop_v1.simps [simp del]

definition processConsensus_v1 ::
  "AdvisorConfig list \<Rightarrow> provider \<Rightarrow> DiscussionRound list \<Rightarrow> jsvalue
     \<Rightarrow> payload \<times> DiscussionRound list" where
  "processConsensus_v1 as api old input =
     (case validateConsensusData_v1 input of
        Inl e \<Rightarrow> (Failed e ''failed'', old)
      | Inr v \<Rightarrow>
          (case roundLoop_v1 as api v 1 [] None of
             Return reply history \<Rightarrow> (reply, history)
           | Throw e history \<Rightarrow> (Failed e ''failed'', history)
           | Leave history finalCons \<Rightarrow>
               (Concluded
                  (if isSet finalCons then ''consensus_reached'' else ''max_rounds_reached'')
                  (if isSet finalCons then the finalCons
                   else ''No consensus reached within the maximum number of rounds'')
                  (length history) history,
                history)))"

section \<open>The rounds of a run\<close>

text \<open>
  What round \<open>n\<close> of a run yields, as functions of the provider: the responses in the
  order of the advisors, the requests of the round, the verdict of the evaluator, and
  the round appended to the ledger. A round is quiet when it neither reaches consensus
  nor carries a request, which is when the loop goes on.
\<close>

definition roundResponses :: "ConsensusServer \<Rightarrow> provider \<Rightarrow> nat \<Rightarrow> AdvisorResponse list" where
  "roundResponses srv api n = fst (queryAll srv api n)"

definition roundRequests :: "ConsensusServer \<Rightarrow> provider \<Rightarrow> nat \<Rightarrow> ToolRequest list" where
  "roundRequests srv api n = snd (queryAll srv api n)"

definition roundVerdict :: "ConsensusServer \<Rightarrow> provider \<Rightarrow> nat \<Rightarrow> ConsensusResult" where
  "roundVerdict srv api n = checkConsensus (roundResponses srv api n) (consensusThreshold srv)"

definition roundOf :: "ConsensusServer \<Rightarrow> provider \<Rightarrow> nat \<Rightarrow> DiscussionRound" where
  "roundOf srv api n =
     \<lparr>roundNo = n, responses = roundResponses srv api n,
      consensus = consensusText (roundVerdict srv api n)\<rparr>"

definition quiet :: "ConsensusServer \<Rightarrow> provider \<Rightarrow> nat \<Rightarrow> bool" where
  "quiet srv api n = (\<not> hasConsensus (roundVerdict srv api n) \<and> roundRequests srv api n = [])"

fun ledger :: "loopExit \<Rightarrow> DiscussionRound list" where
  "ledger (Leave h c) = h"
| "ledger (Return p h) = h"
| "ledger (Throw e h) = h"

definition advisorResponse :: "provider \<Rightarrow> nat \<Rightarrow> AdvisorConfig \<Rightarrow> AdvisorResponse" where
  "advisorResponse api n a =
     (case queryAdvisor api n a of
        Inr t \<Rightarrow> \<lparr>advisorId = idOf a, response = t,
                  toolRequests = (if fst (parseToolRequests t) = [] then None
                                  else Some (fst (parseToolRequests t)))\<rparr>
      | Inl e \<Rightarrow> \<lparr>advisorId = idOf a, response = ''Error querying advisor: '' @ e,
                  toolRequests = None\<rparr>)"

definition advisorRequests :: "provider \<Rightarrow> nat \<Rightarrow> AdvisorConfig \<Rightarrow> ToolRequest list" where
  "advisorRequests api n a =
     (case queryAdvisor api n a of Inr t \<Rightarrow> fst (parseToolRequests t) | Inl e \<Rightarrow> [])"

definition summaryResponse :: "provider \<Rightarrow> nat \<Rightarrow> AdvisorConfig \<Rightarrow> AdvisorResponse" where
  "summaryResponse api n a =
     \<lparr>advisorId = idOf a,
      response = (case queryAdvisor api n a of Inr s \<Rightarrow> s
                  | Inl e \<Rightarrow> ''Error generating summary: '' @ e),
      toolRequests = None\<rparr>"

definition summaryRound :: "ConsensusServer \<Rightarrow> provider \<Rightarrow> DiscussionRound list \<Rightarrow> string option \<Rightarrow> DiscussionRound" where
  "summaryRound srv api h c =
     \<lparr>roundNo = length h + 1,
      responses = map (summaryResponse api (length h + 1)) (advisors srv),
      consensus = c\<rparr>"

definition roundThrows_v1 :: "AdvisorConfig list \<Rightarrow> provider \<Rightarrow> nat \<Rightarrow> string option" where
  "roundThrows_v1 as api n =
     (case queryEach_v1 api n as ([], []) of Inl e \<Rightarrow> Some e | Inr p \<Rightarrow> None)"

definition roundResponses_v1 :: "AdvisorConfig list \<Rightarrow> provider \<Rightarrow> nat \<Rightarrow> AdvisorResponse list" where
  "roundResponses_v1 as api n =
     (case queryEach_v1 api n as ([], []) of Inl e \<Rightarrow> [] | Inr p \<Rightarrow> fst p)"

definition roundRequests_v1 :: "AdvisorConfig list \<Rightarrow> provider \<Rightarrow> nat \<Rightarrow> ToolRequest list" where
  "roundRequests_v1 as api n =
     (case queryEach_v1 api n as ([], []) of Inl e \<Rightarrow> [] | Inr p \<Rightarrow> snd p)"

definition roundVerdict_v1 :: "AdvisorConfig list \<Rightarrow> provider \<Rightarrow> ConsensusData_v1 \<Rightarrow> nat \<Rightarrow> ConsensusResult" where
  "roundVerdict_v1 as api v n =
     checkConsensus (roundResponses_v1 as api n) (consensusThreshold_v1 v)"

definition roundOf_v1 :: "AdvisorConfig list \<Rightarrow> provider \<Rightarrow> ConsensusData_v1 \<Rightarrow> nat \<Rightarrow> DiscussionRound" where
  "roundOf_v1 as api v n =
     \<lparr>roundNo = n, responses = roundResponses_v1 as api n,
      consensus = consensusText (roundVerdict_v1 as api v n)\<rparr>"

definition quiet_v1 :: "AdvisorConfig list \<Rightarrow> provider \<Rightarrow> ConsensusData_v1 \<Rightarrow> nat \<Rightarrow> bool" where
  "quiet_v1 as api v n =
     (roundThrows_v1 as api n = None \<and> \<not> hasConsensus (roundVerdict_v1 as api v n)
      \<and> roundRequests_v1 as api n = [])"

text \<open>
  Round \<open>r\<close> of a run is executed, which is to say that its responses are collected and
  evaluated, when it is within the round limit, the prompt of the first round was built
  and every round before it was quiet; in the variant its queries must not throw either.
\<close>

definition reaches :: "ConsensusServer \<Rightarrow> provider \<Rightarrow> ConsensusData \<Rightarrow> nat \<Rightarrow> bool" where
  "reaches srv api d r =
     (1 \<le> r \<and> r \<le> maxRounds srv \<and> \<not> joinThrows (availableTools d)
      \<and> list_all (quiet srv api) [1..<r])"

definition reaches_v1 :: "AdvisorConfig list \<Rightarrow> provider \<Rightarrow> ConsensusData_v1 \<Rightarrow> nat \<Rightarrow> bool" where
  "reaches_v1 as api v r =
     (1 \<le> r \<and> real r \<le> maxRounds_v1 v \<and> \<not> joinThrows (availableTools_v1 v)
      \<and> list_all (quiet_v1 as api v) [1..<r] \<and> roundThrows_v1 as api r = None)"

section \<open>The matches of a scan and the shapes of a directive\<close>

text \<open>
  The matches that successive calls of \<open>exec\<close> find in a response, what the loop of
  \<open>parseToolRequests\<close> makes of one match, and the text of a directive up to its
  parameters, with the white space between its tokens as parameters.
\<close>

function matches :: "string \<Rightarrow> string list list" where
  "matches s = (case exec s of None \<Rightarrow> [] | Some (m, rest) \<Rightarrow> m # matches rest)"
  by pat_completeness auto
termination
  by (relation "measure length") (auto dest: exec_shorter)

declare matches.simps [simp del]

definition parsable :: "string list \<Rightarrow> bool" where
  "parsable m = (case JSON_parse (m ! 2) of None \<Rightarrow> False | Some ps \<Rightarrow> True)"

definition toRequest :: "string list \<Rightarrow> ToolRequest" where
  "toRequest m = \<lparr>tool = m ! 1, parameters = the (JSON_parse (m ! 2)), reason = m ! 3\<rparr>"

definition warningFor :: "string list \<Rightarrow> string" where
  "warningFor m = ''Failed to parse tool request: '' @ m ! 0"

text \<open>
  The \<open>index\<close> of each match of the scan, the place in the response where it starts:
  \<open>lastIndex\<close> behind the match less the length of \<open>match[0]\<close>. \<open>markerStarts\<close>
  lists the places where the text \<open>TOOL_REQUEST:\<close> starts.
\<close>

function matchStartsFrom :: "nat \<Rightarrow> string \<Rightarrow> nat list" where
  "matchStartsFrom lastIndex s =
     (case exec s of
        None \<Rightarrow> []
      | Some (m, rest) \<Rightarrow>
          (lastIndex + (length s - length rest) - length (m ! 0))
            # matchStartsFrom (lastIndex + (length s - length rest)) rest)"
  by pat_completeness auto
termination
  by (relation "measure (\<lambda>(lastIndex, s). length s)") (auto dest: exec_shorter)

declare matchStartsFrom.simps [simp del]

definition matchStarts :: "string \<Rightarrow> nat list" where
  "matchStarts s = matchStartsFrom 0 s"

definition marker :: string where
  "marker = ''TOOL_REQUEST:''"

definition markerStarts :: "string \<Rightarrow> nat list" where
  "markerStarts s = filter (\<lambda>i. stripPrefix marker (drop i s) \<noteq> None) [0..<length s]"

definition directiveHead :: "string \<Rightarrow> string \<Rightarrow> string" where
  \<open>directiveHead w1 w2 = ''TOOL_REQUEST:'' @ w1 @ ''{'' @ w2\<close>

definition toolMember :: "string \<Rightarrow> string \<Rightarrow> string \<Rightarrow> string \<Rightarrow> string" where
  \<open>toolMember w3 t w4 w5 = ''"tool":'' @ w3 @ ''"'' @ t @ ''"'' @ w4 @ '','' @ w5\<close>

definition parametersKey :: "string \<Rightarrow> string" where
  \<open>parametersKey w6 = ''"parameters":'' @ w6\<close>

text \<open>
  The directives that the pattern does not match, for the seven stretches of white
  space between their tokens, each with the text \<open>rest\<close> that follows what is
  written out: the parameters are \<open>{}\<close>; the first key is
  \<open>parameters\<close> or \<open>reason\<close>; the second key is \<open>reason\<close>; the parameters end
  with a nested object, so that a second closing brace follows the first.
\<close>

fun unmatchedDirectives :: "string list \<Rightarrow> string \<Rightarrow> string \<Rightarrow> string \<Rightarrow> string list" where
  \<open>unmatchedDirectives [w1, w2, w3, w4, w5, w6, w7] t a rest =
     [directiveHead w1 w2 @ toolMember w3 t w4 w5 @ parametersKey w6 @ ''{}'' @ rest,
      directiveHead w1 w2 @ ''"parameters":'' @ rest,
      directiveHead w1 w2 @ ''"reason":'' @ rest,
      directiveHead w1 w2 @ toolMember w3 t w4 w5 @ ''"reason":'' @ rest,
      directiveHead w1 w2 @ toolMember w3 t w4 w5 @ parametersKey w6
        @ ''{'' @ a @ ''}'' @ w7 @ ''}'' @ rest]\<close>
| "unmatchedDirectives ws t a rest = []"

section \<open>Counting ordinary texts\<close>

text \<open>
  A normalized text is ordinary when it is not one of the two names that
  \<open>agreementCounts\<close> inherits. For such texts the slots of the object are the
  occurrence counts.
\<close>

definition ordinary :: "string \<Rightarrow> bool" where
  "ordinary t = (t \<noteq> ''constructor'' \<and> t \<noteq> ''__proto__'')"

definition tally :: "counts \<Rightarrow> string \<Rightarrow> nat" where
  "tally acc k = (case map_of acc k of Some (Count n) \<Rightarrow> n | _ \<Rightarrow> 0)"

definition counted :: "counts \<Rightarrow> bool" where
  "counted acc = list_all (\<lambda>p. case snd p of Count n \<Rightarrow> 0 < n | Text s \<Rightarrow> False) acc"

definition slotValue :: "slot \<Rightarrow> real" where
  "slotValue v = (case v of Count n \<Rightarrow> real n | Text s \<Rightarrow> 0)"

section \<open>Example runs\<close>

text \<open>
  The panel of the constructor with the default round limit and threshold, a run input
  that both files accept, and two providers: one whose advisors all give the same
  answer, one whose advisors each give a different answer; every answer carries a
  directive.
\<close>

definition panel :: ConsensusServer where
  "panel = \<lparr>maxRounds = 5, consensusThreshold = 4 / 5, advisors = preConfiguredAdvisors []\<rparr>"

definition exampleInput :: jsvalue where
  "exampleInput =
     JSObject [(''problem'', JSString ''Adopt policy X?''),
               (''availableTools'', JSArray [JSString ''web_search'']),
               (''maxRounds'', JSNumber 5),
               (''consensusThreshold'', JSNumber (4 / 5))]"

definition exampleData :: ConsensusData where
  "exampleData = \<lparr>problem = ''Adopt policy X?'', availableTools = [JSString ''web_search'']\<rparr>"

definition exampleData_v1 :: ConsensusData_v1 where
  "exampleData_v1 = ConsensusData_v1 ''Adopt policy X?'' [JSString ''web_search''] 5 (4 / 5)"

definition directiveText :: string where
  \<open>directiveText =
     ''TOOL_REQUEST: {"tool": "web_search", "parameters": {"query": "X"}, "reason": "data"}''\<close>

definition agreeingProvider :: provider where
  "agreeingProvider n a = Content (Some (''Adopt X. '' @ directiveText))"

definition askingProvider :: provider where
  "askingProvider n a = Content (Some (name a @ '' asks. '' @ directiveText))"

definition emptyToolsInput :: jsvalue where
  "emptyToolsInput =
     JSObject [(''problem'', JSString ''Adopt policy X?''),
               (''availableTools'', JSArray []),
               (''maxRounds'', JSNumber 5),
               (''consensusThreshold'', JSNumber (4 / 5))]"

definition failingProvider :: provider where
  "failingProvider n a = Rejected ''timeout''"

definition oneFailingProvider :: provider where
  "oneFailingProvider n a =
     (if idOf a = ''advisor_alpha'' then Rejected ''timeout'' else Content (Some ''Adopt X.''))"

definition strictPanel :: ConsensusServer where
  "strictPanel = \<lparr>maxRounds = 2, consensusThreshold = 9 / 10, advisors = preConfiguredAdvisors []\<rparr>"

definition splitProvider :: provider where
  "splitProvider n a = Content (Some (name a))"

definition firstRound :: "payload \<times> DiscussionRound list \<Rightarrow> DiscussionRound" where
  "firstRound run = (case snd run of [] \<Rightarrow> \<lparr>roundNo = 0, responses = [], consensus = None\<rparr> | rd # _ \<Rightarrow> rd)"


definition emptyParamsText :: string where
  \<open>emptyParamsText = ''TOOL_REQUEST: {"tool": "web_search", "parameters": {}, "reason": "r"}''\<close>

definition reorderedText :: string where
  \<open>reorderedText = ''TOOL_REQUEST: {"tool": "web_search", "reason": "r", "parameters": {"q": 1}}''\<close>

definition parametersFirstText :: string where
  \<open>parametersFirstText = ''TOOL_REQUEST: {"parameters": {"q": 1}, "tool": "web_search", "reason": "r"}''\<close>

definition nestedText :: string where
  \<open>nestedText = ''TOOL_REQUEST: {"tool": "web_search", "parameters": {"a": {"b": 1}}, "reason": "r"}''\<close>

definition nestedThenReasonText :: string where
  \<open>nestedThenReasonText = ''TOOL_REQUEST: {"tool": "t", "parameters": {"a": {"b": 1}, "reason": "r"}, "reason": "x"}''\<close>

definition embeddedEmptyText :: string where
  "embeddedEmptyText = ''I need data. '' @ emptyParamsText @ '' Thanks.''"

definition embeddedNestedText :: string where
  "embeddedNestedText = ''I need data. '' @ nestedText @ '' Thanks.''"

definition emptyThenGoodText :: string where
  "emptyThenGoodText = emptyParamsText @ '' and '' @ directiveText"

definition throwingInput :: jsvalue where
  "throwingInput =
     JSObject [(''problem'', JSString ''Adopt policy X?''),
               (''availableTools'', JSArray [JSObject [(''toString'', JSNumber 1)]]),
               (''maxRounds'', JSNumber 5),
               (''consensusThreshold'', JSNumber (4 / 5))]"

definition answer :: "string \<Rightarrow> AdvisorResponse" where
  "answer t = \<lparr>advisorId = ''advisor'', response = t, toolRequests = None\<rparr>"

section \<open>Facts about the pattern, the evaluator and the loop\<close>

lemma parse_mono:
  "parseValue k s = Some x \<Longrightarrow> parseValue (k + d) s = Some x"
  "parseElements k s es = Some x \<Longrightarrow> parseElements (k + d) s es = Some x"
  "parseMembers k s ms = Some x \<Longrightarrow> parseMembers (k + d) s ms = Some x"
proof (induction k s and k s es and k s ms arbitrary: x and x and x
       rule: parseValue_parseElements_parseMembers.induct)
  case (1 s)
  then show ?case by simp
next
  case (2 k s)
  from "2.prems" show ?case
    by (auto split: list.splits if_splits simp: "2.IH")
next
  case (3 s acc)
  then show ?case by simp
next
  case (4 k s acc)
  from "4.prems" show ?case
    by (auto split: option.splits list.splits if_splits simp: "4.IH")
next
  case (5 s acc)
  then show ?case by simp
next
  case (6 k s acc)
  from "6.prems" show ?case
    by (auto split: option.splits list.splits if_splits simp: "6.IH")
qed

lemma skipWs_length: "length (skipWs s) \<le> length s"
  by (simp add: skipWs_def length_dropWhile_le)

lemma skipWs_Cons_length: "skipWs s = c # r \<Longrightarrow> length r < length s"
  using skipWs_length [of s] by simp

lemma parseChars_shorter: "parseChars s acc = Some (cs, r) \<Longrightarrow> length r < length s"
proof (induction "length s" arbitrary: s acc rule: less_induct)
  case less
  show ?case
  proof (cases s)
    case Nil
    with less.prems show ?thesis by simp
  next
    case (Cons c s')
    note step = less.hyps [rotated]
    from less.prems Cons show ?thesis
      by (auto split: if_splits list.splits option.splits prod.splits dest!: step)
  qed
qed

lemma takeDigits_shorter: "takeDigits s = Some (ds, r) \<Longrightarrow> length r < length s"
proof -
  assume a: "takeDigits s = Some (ds, r)"
  then have "takeWhile isDigit s \<noteq> []" "r = dropWhile isDigit s"
    by (auto simp: takeDigits_def split: if_splits)
  moreover have "length s = length (takeWhile isDigit s) + length (dropWhile isDigit s)"
    by (metis length_append takeWhile_dropWhile_id)
  ultimately show ?thesis by (cases "takeWhile isDigit s") auto
qed

lemma parseInt_shorter: "parseInt s = Some (i, r) \<Longrightarrow> length r < length s"
  by (auto simp: parseInt_def split: list.splits if_splits dest: takeDigits_shorter)

lemma parseFrac_shorter: "parseFrac s = Some (f, r) \<Longrightarrow> length r \<le> length s"
  by (auto simp: parseFrac_def split: list.splits if_splits dest!: takeDigits_shorter)

lemma parseExp_shorter: "parseExp s = Some (e, r) \<Longrightarrow> length r \<le> length s"
  by (auto simp: parseExp_def split: list.splits if_splits dest!: takeDigits_shorter)

lemma parseNumber_shorter: "parseNumber s = Some (v, r) \<Longrightarrow> length r < length s"
proof -
  assume a: "parseNumber s = Some (v, r)"
  obtain sg s0 where sg: "(case s of [] \<Rightarrow> ([], s)
       | c # r \<Rightarrow> if c = CHR ''-'' then ([c], r) else ([], s)) = (sg, s0)"
    by (cases "(case s of [] \<Rightarrow> ([], s) | c # r \<Rightarrow> if c = CHR ''-'' then ([c], r) else ([], s))")
  then have l0: "length s0 \<le> length s" by (auto split: list.splits if_splits)
  from a sg obtain i s1 f s2 e where "parseInt s0 = Some (i, s1)" "parseFrac s1 = Some (f, s2)"
    "parseExp s2 = Some (e, r)"
    by (auto simp: parseNumber_def split: option.splits)
  with l0 show ?thesis
    by (auto dest!: parseInt_shorter parseFrac_shorter parseExp_shorter)
qed

lemma stripPrefix_length: "stripPrefix l s = Some r \<Longrightarrow> length s = length l + length r"
  by (induction l s rule: stripPrefix.induct) (auto split: if_splits)

lemma parseLiteral_shorter: "parseLiteral s = Some (v, r) \<Longrightarrow> length r < length s"
  by (auto simp: parseLiteral_def split: option.splits
        dest!: stripPrefix_length parseNumber_shorter)

lemma parse_mono_le:
  "parseValue a s = Some x \<Longrightarrow> a \<le> b \<Longrightarrow> parseValue b s = Some x"
  "parseElements a s es = Some x \<Longrightarrow> a \<le> b \<Longrightarrow> parseElements b s es = Some x"
  "parseMembers a s ms = Some x \<Longrightarrow> a \<le> b \<Longrightarrow> parseMembers b s ms = Some x"
  using parse_mono(1) [of a s x "b - a"] parse_mono(2) [of a s es x "b - a"]
    parse_mono(3) [of a s ms x "b - a"]
  by simp_all

lemma parse_bound:
  "parseValue k s = Some (v, r) \<Longrightarrow>
     length r < length s \<and> parseValue (length s - length r) s = Some (v, r)"
  "parseElements k s es = Some (v, r) \<Longrightarrow>
     length r < length s \<and> parseElements (length s - length r) s es = Some (v, r)"
  "parseMembers k s ms = Some (v, r) \<Longrightarrow>
     length r < length s \<and> parseMembers (length s - length r) s ms = Some (v, r)"
proof (induction k s and k s es and k s ms arbitrary: v r and v r and v r
       rule: parseValue_parseElements_parseMembers.induct)
  case (1 s)
  then show ?case by simp
next
  case (2 k s)
  from "2.prems" obtain c r0 where sk: "skipWs s = c # r0"
    by (auto split: list.splits)
  then have l0: "length r0 < length s" by (rule skipWs_Cons_length)
  consider (obj) "c = CHR ''{''" | (arr) "c \<noteq> CHR ''{''" "c = CHR ''[''"
    | (str) "c \<noteq> CHR ''{''" "c \<noteq> CHR ''[''" "c = CHR 0x22"
    | (lit) "c \<noteq> CHR ''{''" "c \<noteq> CHR ''[''" "c \<noteq> CHR 0x22" by blast
  then show ?case
  proof cases
    case obj
    from "2.prems" sk obj obtain d r' where sk': "skipWs r0 = d # r'"
      by (auto split: list.splits)
    then have l1: "length r' < length r0" by (rule skipWs_Cons_length)
    show ?thesis
    proof (cases "d = CHR ''}''")
      case True
      with "2.prems" sk obj sk' have "v = JObject []" "r = r'" by auto
      moreover from l0 l1 obtain m where "length s - length r' = Suc m"
        by (cases "length s - length r'") auto
      ultimately show ?thesis using l0 l1 sk obj sk' True by simp
    next
      case False
      with "2.prems" sk obj sk' have rec: "parseMembers k r0 [] = Some (v, r)" by simp
      from "2.IH"(1) [OF sk obj sk' False rec]
      have lr: "length r < length r0"
        and min: "parseMembers (length r0 - length r) r0 [] = Some (v, r)" by simp_all
      from l0 lr obtain m where m: "length s - length r = Suc m"
        by (cases "length s - length r") auto
      with l0 lr have "length r0 - length r \<le> m" by simp
      from parse_mono_le(3) [OF min this] m sk obj sk' False l0 lr show ?thesis by simp
    qed
  next
    case arr
    from "2.prems" sk arr obtain d r' where sk': "skipWs r0 = d # r'"
      by (auto split: list.splits)
    then have l1: "length r' < length r0" by (rule skipWs_Cons_length)
    show ?thesis
    proof (cases "d = CHR '']''")
      case True
      with "2.prems" sk arr sk' have "v = JArray []" "r = r'" by auto
      moreover from l0 l1 obtain m where "length s - length r' = Suc m"
        by (cases "length s - length r'") auto
      ultimately show ?thesis using l0 l1 sk arr sk' True by simp
    next
      case False
      with "2.prems" sk arr sk' have rec: "parseElements k r0 [] = Some (v, r)" by simp
      from "2.IH"(2) [OF sk arr sk' False rec]
      have lr: "length r < length r0"
        and min: "parseElements (length r0 - length r) r0 [] = Some (v, r)" by simp_all
      from l0 lr obtain m where m: "length s - length r = Suc m"
        by (cases "length s - length r") auto
      with l0 lr have "length r0 - length r \<le> m" by simp
      from parse_mono_le(2) [OF min this] m sk arr sk' False l0 lr show ?thesis by simp
    qed
  next
    case str
    with "2.prems" sk obtain cs where pc: "parseChars r0 [] = Some (cs, r)" "v = JString cs"
      by auto
    then have lr: "length r < length r0" by (auto dest: parseChars_shorter)
    with l0 obtain m where "length s - length r = Suc m"
      by (cases "length s - length r") auto
    with l0 lr sk str pc show ?thesis by simp
  next
    case lit
    with "2.prems" sk have pl: "parseLiteral (c # r0) = Some (v, r)" by simp
    then have lr: "length r < length (c # r0)" by (rule parseLiteral_shorter)
    with l0 obtain m where "length s - length r = Suc m"
      by (cases "length s - length r") auto
    with l0 lr sk lit pl show ?thesis by simp
  qed
next
  case (3 s acc)
  then show ?case by simp
next
  case (4 k s acc)
  from "4.prems" obtain v1 r1 where pv: "parseValue k s = Some (v1, r1)"
    by (auto split: option.splits)
  from "4.IH"(1) [OF pv]
  have l1: "length r1 < length s" and min1: "parseValue (length s - length r1) s = Some (v1, r1)"
    by simp_all
  from "4.prems" pv obtain c r' where sk: "skipWs r1 = c # r'"
    by (auto split: list.splits)
  then have l2: "length r' < length r1" by (rule skipWs_Cons_length)
  show ?case
  proof (cases "c = CHR '',''")
    case True
    with "4.prems" pv sk have rec: "parseElements k r' (acc @ [v1]) = Some (v, r)" by simp
    from "4.IH"(2) [OF pv refl sk True rec]
    have lr: "length r < length r'"
      and min2: "parseElements (length r' - length r) r' (acc @ [v1]) = Some (v, r)"
      by simp_all
    from l1 l2 lr obtain m where m: "length s - length r = Suc m"
      by (cases "length s - length r") auto
    with l1 l2 lr have "length s - length r1 \<le> m" "length r' - length r \<le> m" by simp_all
    from parse_mono_le(1) [OF min1 this(1)] parse_mono_le(2) [OF min2 this(2)] m sk True l1 l2 lr
    show ?thesis by simp
  next
    case False
    with "4.prems" pv sk have e: "c = CHR '']''" "v = JArray (acc @ [v1])" "r = r'"
      by (auto split: if_splits)
    from l1 l2 obtain m where m: "length s - length r' = Suc m"
      by (cases "length s - length r'") auto
    with l1 l2 have "length s - length r1 \<le> m" by simp
    from parse_mono_le(1) [OF min1 this] m sk e l1 l2 show ?thesis by simp
  qed
next
  case (5 s acc)
  then show ?case by simp
next
  case (6 k s acc)
  from "6.prems" obtain q r0 where sk0: "skipWs s = q # r0" and q: "q = CHR 0x22"
    by (auto split: list.splits if_splits)
  then have l0: "length r0 < length s" by (auto dest: skipWs_Cons_length)
  from "6.prems" sk0 q obtain key r1 where pc: "parseChars r0 [] = Some (key, r1)"
    by (auto split: option.splits)
  then have l1: "length r1 < length r0" by (rule parseChars_shorter)
  from "6.prems" sk0 q pc obtain c r2 where sk1: "skipWs r1 = c # r2" and c: "c = CHR '':''"
    by (auto split: list.splits if_splits)
  then have l2: "length r2 < length r1" by (auto dest: skipWs_Cons_length)
  from "6.prems" sk0 q pc sk1 c obtain v1 r3 where pv: "parseValue k r2 = Some (v1, r3)"
    by (auto split: option.splits)
  from "6.IH"(1) [OF sk0 q pc refl sk1 c pv]
  have l3: "length r3 < length r2" and min1: "parseValue (length r2 - length r3) r2 = Some (v1, r3)"
    by simp_all
  from "6.prems" sk0 q pc sk1 c pv obtain d r4 where sk3: "skipWs r3 = d # r4"
    by (auto split: list.splits)
  then have l4: "length r4 < length r3" by (rule skipWs_Cons_length)
  show ?case
  proof (cases "d = CHR '',''")
    case True
    with "6.prems" sk0 q pc sk1 c pv sk3
    have rec: "parseMembers k r4 (acc @ [(key, v1)]) = Some (v, r)" by simp
    from "6.IH"(2) [OF sk0 q pc refl sk1 c pv refl sk3 True rec]
    have lr: "length r < length r4"
      and min2: "parseMembers (length r4 - length r) r4 (acc @ [(key, v1)]) = Some (v, r)"
      by simp_all
    from l0 l1 l2 l3 l4 lr obtain m where m: "length s - length r = Suc m"
      by (cases "length s - length r") auto
    with l0 l1 l2 l3 l4 lr have "length r2 - length r3 \<le> m" "length r4 - length r \<le> m"
      by simp_all
    from parse_mono_le(1) [OF min1 this(1)] parse_mono_le(3) [OF min2 this(2)]
      m sk0 q pc sk1 c sk3 True l0 l1 l2 l3 l4 lr
    show ?thesis by simp
  next
    case False
    with "6.prems" sk0 q pc sk1 c pv sk3
    have e: "d = CHR ''}''" "v = JObject (acc @ [(key, v1)])" "r = r4"
      by (auto split: if_splits)
    from l0 l1 l2 l3 l4 obtain m where m: "length s - length r4 = Suc m"
      by (cases "length s - length r4") auto
    with l0 l1 l2 l3 l4 have "length r2 - length r3 \<le> m" by simp
    from parse_mono_le(1) [OF min1 this] m sk0 q pc sk1 c sk3 e l0 l1 l2 l3 l4
    show ?thesis by simp
  qed
qed

lemma JSON_parse_any_fuel:
  assumes "parseValue k s = Some (v, r)" and "skipWs r = []"
  shows "JSON_parse s = Some v"
proof -
  from parse_bound(1) [OF assms(1)]
  have "parseValue (length s - length r) s = Some (v, r)" by simp
  then have "parseValue (Suc (length s)) s = Some (v, r)"
    by (rule parse_mono_le(1)) simp
  with assms(2) show ?thesis by (simp add: JSON_parse_def)
qed

lemma initialPrompt_None [simp]: "\<not> joinThrows tools \<Longrightarrow> initialPrompt tools n = None"
  by (simp add: initialPrompt_def)

lemma initialPrompt_later [simp]: "n \<noteq> 1 \<Longrightarrow> initialPrompt tools n = None"
  by (simp add: initialPrompt_def)

lemma initialPrompt_Some: "initialPrompt tools n = Some e \<Longrightarrow> n = 1 \<and> joinThrows tools \<and> e = TypeError"
  by (simp add: initialPrompt_def split: if_splits)

lemma roundLoop_step:
  "roundLoop srv api d n h None =
     (if n \<le> maxRounds srv then
        (case initialPrompt (availableTools d) n of
           Some e \<Rightarrow> Throw e h
         | None \<Rightarrow>
             if hasConsensus (roundVerdict srv api n)
             then Leave (h @ [roundOf srv api n]) (consensusText (roundVerdict srv api n))
             else if roundRequests srv api n \<noteq> [] then
               Return (ToolRequestsNeeded ''tool_requests_needed'' n (roundRequests srv api n)
                         (generateDiscussionSummary (h @ [roundOf srv api n]))
                         ''Please execute the requested tools and continue the consensus process'')
                      (h @ [roundOf srv api n])
             else roundLoop srv api d (n + 1) (h @ [roundOf srv api n]) None)
      else Leave h None)"
  by (subst roundLoop.simps)
     (simp add: isSet_def roundOf_def roundVerdict_def roundResponses_def roundRequests_def
        Let_def split: prod.splits option.splits)

lemma roundLoop_throws:
  "joinThrows (availableTools d) \<Longrightarrow> 1 \<le> maxRounds srv \<Longrightarrow>
     roundLoop srv api d 1 h None = Throw TypeError h"
  by (subst roundLoop_step) (simp add: initialPrompt_def)

lemma upt_Suc_add: "[n..<Suc (n + k)] = n # [Suc n..<Suc (n + k)]"
  by (subst upt_rec) simp

lemma roundLoop_quiet:
  "(\<forall>m. n \<le> m \<and> m < n + k \<longrightarrow> quiet srv api m) \<Longrightarrow> n + k \<le> Suc (maxRounds srv) \<Longrightarrow>
   \<not> joinThrows (availableTools d) \<Longrightarrow>
   roundLoop srv api d n h None =
     roundLoop srv api d (n + k) (h @ map (roundOf srv api) [n..<n + k]) None"
proof (induction k arbitrary: n h)
  case 0
  then show ?case by simp
next
  case (Suc k)
  have q: "quiet srv api n" using Suc.prems(1) by simp
  have le: "n \<le> maxRounds srv" using Suc.prems(2) by simp
  have "roundLoop srv api d n h None = roundLoop srv api d (Suc n) (h @ [roundOf srv api n]) None"
    using q le Suc.prems(3) by (subst roundLoop_step) (simp add: quiet_def)
  also have "\<dots> = roundLoop srv api d (Suc n + k)
      ((h @ [roundOf srv api n]) @ map (roundOf srv api) [Suc n..<Suc n + k]) None"
    using Suc.prems by (intro Suc.IH) auto
  finally show ?case by (simp add: upt_Suc_add del: upt_Suc)
qed

lemma roundLoop_ledger:
  "\<exists>k. n + k \<le> max n (Suc (maxRounds srv)) \<and>
       ledger (roundLoop srv api d n h None) = h @ map (roundOf srv api) [n..<n + k]"
proof (induction "Suc (maxRounds srv) - n" arbitrary: n h)
  case 0
  then have "\<not> n \<le> maxRounds srv" by simp
  then have "roundLoop srv api d n h None = Leave h None" by (subst roundLoop_step) simp
  then show ?case by (intro exI [of _ 0]) simp
next
  case (Suc x)
  then have le: "n \<le> maxRounds srv" by simp
  consider (t) e where "initialPrompt (availableTools d) n = Some e"
    | (a) "initialPrompt (availableTools d) n = None" "hasConsensus (roundVerdict srv api n)"
    | (b) "initialPrompt (availableTools d) n = None" "\<not> hasConsensus (roundVerdict srv api n)"
          "roundRequests srv api n \<noteq> []"
    | (c) "initialPrompt (availableTools d) n = None" "\<not> hasConsensus (roundVerdict srv api n)"
          "roundRequests srv api n = []"
    by (cases "initialPrompt (availableTools d) n") auto
  then show ?case
  proof cases
    case t
    then have "ledger (roundLoop srv api d n h None) = h"
      using le by (subst roundLoop_step) simp
    then show ?thesis by (intro exI [of _ 0]) simp
  next
    case a
    then have "ledger (roundLoop srv api d n h None) = h @ [roundOf srv api n]"
      using le by (subst roundLoop_step) simp
    then show ?thesis using le by (intro exI [of _ 1]) (simp add: max_def)
  next
    case b
    then have "ledger (roundLoop srv api d n h None) = h @ [roundOf srv api n]"
      using le by (subst roundLoop_step) simp
    then show ?thesis using le by (intro exI [of _ 1]) (simp add: max_def)
  next
    case c
    then have eq: "roundLoop srv api d n h None =
        roundLoop srv api d (Suc n) (h @ [roundOf srv api n]) None"
      using le by (subst roundLoop_step) simp
    have "x = Suc (maxRounds srv) - Suc n" using Suc.hyps(2) by simp
    from Suc.hyps(1) [OF this, of "h @ [roundOf srv api n]"]
    obtain k where k: "Suc n + k \<le> max (Suc n) (Suc (maxRounds srv))"
      "ledger (roundLoop srv api d (Suc n) (h @ [roundOf srv api n]) None) =
         (h @ [roundOf srv api n]) @ map (roundOf srv api) [Suc n..<Suc n + k]"
      by blast
    show ?thesis
      using k le eq by (intro exI [of _ "Suc k"]) (simp add: upt_Suc_add max_def del: upt_Suc)
  qed
qed

lemma collect_advisorTask:
  "foldl collectResult (rs, reqs) (map (advisorTask api n) as) =
     (rs @ map (advisorResponse api n) as, reqs @ concat (map (advisorRequests api n) as))"
proof (induction as arbitrary: rs reqs)
  case Nil
  then show ?case by simp
next
  case (Cons a as)
  have "collectResult (rs, reqs) (advisorTask api n a) =
          (rs @ [advisorResponse api n a], reqs @ advisorRequests api n a)"
    by (simp add: collectResult_def advisorTask_def advisorResponse_def advisorRequests_def
          split: sum.splits)
  then show ?case by (simp add: Cons.IH)
qed

lemma queryAll_map:
  "queryAll srv api n =
     (map (advisorResponse api n) (advisors srv), concat (map (advisorRequests api n) (advisors srv)))"
  by (simp add: queryAll_def collect_advisorTask)

lemma roundResponses_map: "roundResponses srv api n = map (advisorResponse api n) (advisors srv)"
  by (simp add: roundResponses_def queryAll_map)

lemma advisorId_advisorResponse [simp]: "advisorId (advisorResponse api n a) = idOf a"
  by (simp add: advisorResponse_def split: sum.splits)

lemma queryAdvisor_nonempty: "queryAdvisor api n a = Inr t \<Longrightarrow> t \<noteq> []"
  by (auto simp: queryAdvisor_def split: completion.splits option.splits if_splits)

lemma response_nonempty: "response (advisorResponse api n a) \<noteq> []"
  by (auto simp: advisorResponse_def split: sum.splits dest: queryAdvisor_nonempty)

lemma response_rejected:
  "api n a = Rejected e \<Longrightarrow> response (advisorResponse api n a) = ''Error querying advisor: '' @ e"
  by (simp add: advisorResponse_def queryAdvisor_def)

lemma collect_summaryTask:
  "foldl collectSummary (rs, vs) (map (summaryTask api n) as) =
     (rs @ map (summaryResponse api n) as,
      vs @ map (\<lambda>a. (advisorId (summaryResponse api n a), response (summaryResponse api n a))) as)"
proof (induction as arbitrary: rs vs)
  case Nil
  then show ?case by simp
next
  case (Cons a as)
  have "collectSummary (rs, vs) (summaryTask api n a) =
          (rs @ [summaryResponse api n a],
           vs @ [(advisorId (summaryResponse api n a), response (summaryResponse api n a))])"
    by (simp add: collectSummary_def summaryTask_def summaryResponse_def split: sum.splits)
  then show ?case by (simp add: Cons.IH)
qed

lemma snd_summaryPass: "snd (summaryPass srv api h c) = h @ [summaryRound srv api h c]"
  by (simp add: summaryPass_def collect_summaryTask summaryRound_def Let_def)

lemma status_summaryPass:
  "status (fst (summaryPass srv api h c)) =
     (if isSet c then ''consensus_reached'' else ''max_rounds_reached'')"
  by (simp add: summaryPass_def collect_summaryTask Let_def)

lemma maxNumber_Number: "maxNumber m x = Number a \<Longrightarrow> m = Number a \<or> x = Number a"
  by (cases m; cases x) (auto simp: max_def split: if_splits)

lemma foldl_max_Number:
  "foldl (\<lambda>m v. maxNumber m (toNumber v)) m vs = Number a \<Longrightarrow>
     m = Number a \<or> (\<exists>n. Count n \<in> set vs \<and> real n = a)"
proof (induction vs arbitrary: m)
  case Nil
  then show ?case by simp
next
  case (Cons v vs)
  from Cons.IH [of "maxNumber m (toNumber v)"] Cons.prems
  consider "maxNumber m (toNumber v) = Number a" | "\<exists>n. Count n \<in> set vs \<and> real n = a"
    by auto
  then show ?case
  proof cases
    case 1
    then have "m = Number a \<or> toNumber v = Number a" by (rule maxNumber_Number)
    then show ?thesis by (auto simp: toNumber_def split: slot.splits)
  next
    case 2
    then show ?thesis by auto
  qed
qed

lemma Math_max_Number: "Math_max vs = Number a \<Longrightarrow> \<exists>n. Count n \<in> set vs \<and> real n = a"
  by (auto simp: Math_max_def dest: foldl_max_Number)

lemma set_objectEntries: "set (objectEntries acc) = set acc"
  by (auto simp: objectEntries_def)

lemma countResponse_keys: "fst ` set (countResponse acc k) \<subseteq> insert k (fst ` set acc)"
  by (auto simp: countResponse_def dom_update split: option.splits if_splits)

lemma countResponse_distinct: "distinct (map fst acc) \<Longrightarrow> distinct (map fst (countResponse acc k))"
  by (auto simp: countResponse_def distinct_update split: option.splits)

lemma foldl_countResponse_keys: "fst ` set (foldl countResponse acc ts) \<subseteq> fst ` set acc \<union> set ts"
proof (induction ts arbitrary: acc)
  case Nil
  then show ?case by simp
next
  case (Cons t ts)
  from Cons.IH [of "countResponse acc t"] countResponse_keys [of acc t]
  show ?case by auto
qed

lemma foldl_countResponse_distinct:
  "distinct (map fst acc) \<Longrightarrow> distinct (map fst (foldl countResponse acc ts))"
  by (induction ts arbitrary: acc) (auto simp: countResponse_distinct)

lemma find_Some_mem: "find P xs = Some x \<Longrightarrow> x \<in> set xs \<and> P x"
  by (induction xs) (auto split: if_splits)

lemma find_exists: "x \<in> set xs \<Longrightarrow> P x \<Longrightarrow> \<exists>y. find P xs = Some y"
  by (induction xs) auto

lemma checkConsensus_text:
  assumes "hasConsensus (checkConsensus rs t)"
  shows "\<exists>r \<in> set rs. consensusText (checkConsensus rs t) = Some (response r)"
proof -
  define ts where "ts = map normalized rs"
  define acc where "acc = foldl countResponse [] ts"
  from assms have len: "\<not> length rs < 2"
    by (auto simp: checkConsensus_def)
  show ?thesis
  proof (cases "length (remdups ts) = 1")
    case True
    from len have "rs \<noteq> []" by auto
    then have "hd rs \<in> set rs" by simp
    moreover have "consensusText (checkConsensus rs t) = Some (response (hd rs))"
      using len True by (simp add: checkConsensus_def ts_def Let_def)
    ultimately show ?thesis by blast
  next
    case False
    with assms len have ge: "greaterEq (divideBy (Math_max (objectValues acc)) (length rs)) t"
      by (simp add: checkConsensus_def ts_def acc_def Let_def split: if_splits)
    then obtain a where a: "Math_max (objectValues acc) = Number a"
      by (cases "Math_max (objectValues acc)") (auto simp: greaterEq_def divideBy_def)
    then obtain n where n: "Count n \<in> set (objectValues acc)" "real n = a"
      by (blast dest: Math_max_Number)
    then obtain k where k: "(k, Count n) \<in> set acc"
      by (auto simp: objectValues_def set_objectEntries)
    have "distinct (map fst acc)"
      unfolding acc_def by (rule foldl_countResponse_distinct) simp
    with k have "map_of acc k = Some (Count n)" by simp
    with n have "strictEq (map_of acc k) (Number a)" by (simp add: strictEq_def)
    moreover from k have "k \<in> set (objectKeys acc)"
      by (force simp: objectKeys_def set_objectEntries)
    ultimately obtain key
      where key: "find (\<lambda>key. strictEq (map_of acc key) (Number a)) (objectKeys acc) = Some key"
      using find_exists [of k "objectKeys acc" "\<lambda>key. strictEq (map_of acc key) (Number a)"]
      by blast
    then have "key \<in> set (objectKeys acc)" by (blast dest: find_Some_mem)
    then have "key \<in> fst ` set acc" by (auto simp: objectKeys_def set_objectEntries)
    with foldl_countResponse_keys [of "[]" ts] have "key \<in> set ts" by (auto simp: acc_def)
    then obtain r0 where "r0 \<in> set rs" "normalized r0 = key" by (auto simp: ts_def)
    then obtain r where r: "find (\<lambda>r. Some (normalized r) = Some key) rs = Some r"
      using find_exists [of r0 rs "\<lambda>r. Some (normalized r) = Some key"] by auto
    then have "r \<in> set rs" by (blast dest: find_Some_mem)
    moreover have "consensusText (checkConsensus rs t) = Some (response r)"
      using len False ge a key r
      by (simp add: checkConsensus_def Let_def ts_def [symmetric] acc_def [symmetric])
    ultimately show ?thesis by blast
  qed
qed

lemma processConsensus_valid:
  "validateConsensusData input = Inr d \<Longrightarrow>
   processConsensus srv api old input =
     (case roundLoop srv api d 1 [] None of
        Return reply history \<Rightarrow> (reply, history)
      | Throw e history \<Rightarrow> (Failed e ''failed'', history)
      | Leave history finalCons \<Rightarrow> summaryPass srv api history finalCons)"
  by (simp add: processConsensus_def)

lemma roundVerdict_isSet:
  assumes "hasConsensus (roundVerdict srv api n)"
  shows "isSet (consensusText (roundVerdict srv api n))"
proof -
  from assms obtain r where "r \<in> set (roundResponses srv api n)"
    "consensusText (roundVerdict srv api n) = Some (response r)"
    unfolding roundVerdict_def by (blast dest: checkConsensus_text)
  then show ?thesis
    by (auto simp: roundResponses_map isSet_def response_nonempty)
qed

lemma roundLoop_first_loud:
  assumes "1 \<le> r" "r \<le> maxRounds srv" "\<forall>m. 1 \<le> m \<and> m < r \<longrightarrow> quiet srv api m"
    and "\<not> joinThrows (availableTools d)"
  shows "roundLoop srv api d 1 [] None =
           roundLoop srv api d r (map (roundOf srv api) [1..<r]) None"
proof -
  from assms(1) obtain k where k: "r = 1 + k" by (metis le_Suc_ex)
  have "roundLoop srv api d 1 [] None =
          roundLoop srv api d (1 + k) ([] @ map (roundOf srv api) [1..<1 + k]) None"
    using assms k by (intro roundLoop_quiet) auto
  then show ?thesis using k by simp
qed

lemma roundLoop_Return:
  "roundLoop srv api d n h None = Return p h' \<Longrightarrow>
   \<exists>m. p = ToolRequestsNeeded ''tool_requests_needed'' m (roundRequests srv api m)
             (generateDiscussionSummary h')
             ''Please execute the requested tools and continue the consensus process''
        \<and> \<not> hasConsensus (roundVerdict srv api m) \<and> roundRequests srv api m \<noteq> []
        \<and> n \<le> m \<and> m \<le> maxRounds srv"
proof (induction "Suc (maxRounds srv) - n" arbitrary: n h)
  case 0
  then have "\<not> n \<le> maxRounds srv" by simp
  then have "roundLoop srv api d n h None = Leave h None" by (subst roundLoop_step) simp
  with "0.prems" show ?case by simp
next
  case (Suc x)
  then have le: "n \<le> maxRounds srv" by simp
  consider (t) e where "initialPrompt (availableTools d) n = Some e"
    | (a) "initialPrompt (availableTools d) n = None" "hasConsensus (roundVerdict srv api n)"
    | (b) "initialPrompt (availableTools d) n = None" "\<not> hasConsensus (roundVerdict srv api n)"
          "roundRequests srv api n \<noteq> []"
    | (c) "initialPrompt (availableTools d) n = None" "\<not> hasConsensus (roundVerdict srv api n)"
          "roundRequests srv api n = []"
    by (cases "initialPrompt (availableTools d) n") auto
  then show ?case
  proof cases
    case t
    with le Suc.prems show ?thesis by (subst (asm) roundLoop_step) simp
  next
    case a
    with le Suc.prems show ?thesis by (subst (asm) roundLoop_step) simp
  next
    case b
    with le Suc.prems show ?thesis
      by (subst (asm) roundLoop_step) (auto intro!: exI [of _ n])
  next
    case c
    with le Suc.prems
    have eq: "roundLoop srv api d (Suc n) (h @ [roundOf srv api n]) None = Return p h'"
      by (subst (asm) roundLoop_step) simp
    have "x = Suc (maxRounds srv) - Suc n" using Suc.hyps(2) by simp
    from Suc.hyps(1) [OF this eq] show ?thesis by (auto intro: Suc_leD)
  qed
qed

lemma roundLoop_Leave:
  "roundLoop srv api d n h None = Leave h' c \<Longrightarrow> isSet c \<Longrightarrow>
   \<exists>m. n \<le> m \<and> m \<le> maxRounds srv \<and> h' = h @ map (roundOf srv api) [n..<Suc m]
        \<and> hasConsensus (roundVerdict srv api m) \<and> c = consensusText (roundVerdict srv api m)"
proof (induction "Suc (maxRounds srv) - n" arbitrary: n h)
  case 0
  then have "\<not> n \<le> maxRounds srv" by simp
  then have "roundLoop srv api d n h None = Leave h None" by (subst roundLoop_step) simp
  with "0.prems" show ?case by (simp add: isSet_def)
next
  case (Suc x)
  then have le: "n \<le> maxRounds srv" by simp
  consider (t) e where "initialPrompt (availableTools d) n = Some e"
    | (a) "initialPrompt (availableTools d) n = None" "hasConsensus (roundVerdict srv api n)"
    | (b) "initialPrompt (availableTools d) n = None" "\<not> hasConsensus (roundVerdict srv api n)"
          "roundRequests srv api n \<noteq> []"
    | (c) "initialPrompt (availableTools d) n = None" "\<not> hasConsensus (roundVerdict srv api n)"
          "roundRequests srv api n = []"
    by (cases "initialPrompt (availableTools d) n") auto
  then show ?case
  proof cases
    case t
    with le Suc.prems show ?thesis by (subst (asm) roundLoop_step) simp
  next
    case a
    with le Suc.prems show ?thesis
      by (subst (asm) roundLoop_step) (auto intro!: exI [of _ n])
  next
    case b
    with le Suc.prems show ?thesis by (subst (asm) roundLoop_step) simp
  next
    case c
    with le Suc.prems
    have eq: "roundLoop srv api d (Suc n) (h @ [roundOf srv api n]) None = Leave h' c"
      by (subst (asm) roundLoop_step) simp
    have "x = Suc (maxRounds srv) - Suc n" using Suc.hyps(2) by simp
    from Suc.hyps(1) [OF this eq Suc.prems(2)] obtain m
      where m: "Suc n \<le> m" "m \<le> maxRounds srv"
        "h' = (h @ [roundOf srv api n]) @ map (roundOf srv api) [Suc n..<Suc m]"
        "hasConsensus (roundVerdict srv api m)" "c = consensusText (roundVerdict srv api m)"
      by blast
    from m(1) have "[n..<Suc m] = n # [Suc n..<Suc m]" by (simp add: upt_rec [of n])
    with m show ?thesis by (intro exI [of _ m]) (simp del: upt_Suc)
  qed
qed

lemma roundLoop_Throw:
  "roundLoop srv api d n h None = Throw e h' \<Longrightarrow> joinThrows (availableTools d) \<and> e = TypeError"
proof (induction "Suc (maxRounds srv) - n" arbitrary: n h)
  case 0
  then have "\<not> n \<le> maxRounds srv" by simp
  then have "roundLoop srv api d n h None = Leave h None" by (subst roundLoop_step) simp
  with "0.prems" show ?case by simp
next
  case (Suc x)
  then have le: "n \<le> maxRounds srv" by simp
  consider (t) e' where "initialPrompt (availableTools d) n = Some e'"
    | (a) "initialPrompt (availableTools d) n = None" "hasConsensus (roundVerdict srv api n)"
    | (b) "initialPrompt (availableTools d) n = None" "\<not> hasConsensus (roundVerdict srv api n)"
          "roundRequests srv api n \<noteq> []"
    | (c) "initialPrompt (availableTools d) n = None" "\<not> hasConsensus (roundVerdict srv api n)"
          "roundRequests srv api n = []"
    by (cases "initialPrompt (availableTools d) n") auto
  then show ?case
  proof cases
    case t
    with le Suc.prems initialPrompt_Some [OF t] show ?thesis
      by (subst (asm) roundLoop_step) simp
  next
    case a
    with le Suc.prems show ?thesis by (subst (asm) roundLoop_step) simp
  next
    case b
    with le Suc.prems show ?thesis by (subst (asm) roundLoop_step) simp
  next
    case c
    with le Suc.prems
    have eq: "roundLoop srv api d (Suc n) (h @ [roundOf srv api n]) None = Throw e h'"
      by (subst (asm) roundLoop_step) simp
    have "x = Suc (maxRounds srv) - Suc n" using Suc.hyps(2) by simp
    from Suc.hyps(1) [OF this eq] show ?thesis .
  qed
qed

lemma roundLoop_v1_step:
  "roundLoop_v1 as api v n h None =
     (if real n \<le> maxRounds_v1 v then
        (case initialPrompt (availableTools_v1 v) n of
           Some e \<Rightarrow> Throw e h
         | None \<Rightarrow>
             (case roundThrows_v1 as api n of
                Some e \<Rightarrow> Throw (Error e) h
              | None \<Rightarrow>
                  if hasConsensus (roundVerdict_v1 as api v n)
                  then Leave (h @ [roundOf_v1 as api v n]) (consensusText (roundVerdict_v1 as api v n))
                  else if roundRequests_v1 as api n \<noteq> [] then
                    Return (ToolRequestsNeeded ''tool_requests_needed'' n (roundRequests_v1 as api n)
                              (generateDiscussionSummary (h @ [roundOf_v1 as api v n]))
                              ''Please execute the requested tools and continue the consensus process'')
                           (h @ [roundOf_v1 as api v n])
                  else roundLoop_v1 as api v (n + 1) (h @ [roundOf_v1 as api v n]) None))
      else Leave h None)"
  by (subst roundLoop_v1.simps)
     (simp add: isSet_def roundOf_v1_def roundVerdict_v1_def roundResponses_v1_def
        roundRequests_v1_def roundThrows_v1_def Let_def split: prod.splits sum.splits option.splits)

lemma roundLoop_v1_quiet:
  "(\<forall>m. n \<le> m \<and> m < n + k \<longrightarrow> quiet_v1 as api v m) \<Longrightarrow> real (n + k) \<le> maxRounds_v1 v + 1 \<Longrightarrow>
   \<not> joinThrows (availableTools_v1 v) \<Longrightarrow>
   roundLoop_v1 as api v n h None =
     roundLoop_v1 as api v (n + k) (h @ map (roundOf_v1 as api v) [n..<n + k]) None"
proof (induction k arbitrary: n h)
  case 0
  then show ?case by simp
next
  case (Suc k)
  have q: "quiet_v1 as api v n" using Suc.prems(1) by simp
  have le: "real n \<le> maxRounds_v1 v" using Suc.prems(2) by simp
  have "roundLoop_v1 as api v n h None =
          roundLoop_v1 as api v (Suc n) (h @ [roundOf_v1 as api v n]) None"
    using q le Suc.prems(3) by (subst roundLoop_v1_step) (simp add: quiet_v1_def)
  also have "\<dots> = roundLoop_v1 as api v (Suc n + k)
      ((h @ [roundOf_v1 as api v n]) @ map (roundOf_v1 as api v) [Suc n..<Suc n + k]) None"
    using Suc.prems by (intro Suc.IH) auto
  finally show ?case by (simp add: upt_Suc_add del: upt_Suc)
qed

lemma roundLoop_v1_first_loud:
  assumes "1 \<le> r" "real r \<le> maxRounds_v1 v" "\<forall>m. 1 \<le> m \<and> m < r \<longrightarrow> quiet_v1 as api v m"
    and "\<not> joinThrows (availableTools_v1 v)"
  shows "roundLoop_v1 as api v 1 [] None =
           roundLoop_v1 as api v r (map (roundOf_v1 as api v) [1..<r]) None"
proof -
  from assms(1) obtain k where k: "r = 1 + k" by (metis le_Suc_ex)
  have "roundLoop_v1 as api v 1 [] None =
          roundLoop_v1 as api v (1 + k) ([] @ map (roundOf_v1 as api v) [1..<1 + k]) None"
    using assms k by (intro roundLoop_v1_quiet) auto
  then show ?thesis using k by simp
qed

lemma queryEach_v1_nonempty:
  "queryEach_v1 api n as acc = Inr p \<Longrightarrow> \<forall>x \<in> set (fst acc). response x \<noteq> [] \<Longrightarrow>
     \<forall>x \<in> set (fst p). response x \<noteq> []"
proof (induction as arbitrary: acc)
  case Nil
  then show ?case by simp
next
  case (Cons a as)
  from Cons.prems(1) obtain t where t: "queryAdvisor api n a = Inr t"
    by (auto split: sum.splits)
  then have "t \<noteq> []" by (rule queryAdvisor_nonempty)
  with Cons.prems t show ?case
    by (intro Cons.IH [where acc = "(fst acc @ [_], snd acc @ _)"]) (auto simp: Let_def)
qed

lemma roundResponses_v1_nonempty: "\<forall>x \<in> set (roundResponses_v1 as api n). response x \<noteq> []"
proof (cases "queryEach_v1 api n as ([], [])")
  case (Inl e)
  then show ?thesis by (simp add: roundResponses_v1_def)
next
  case (Inr p)
  from queryEach_v1_nonempty [OF Inr] show ?thesis
    by (simp add: roundResponses_v1_def Inr)
qed

lemma roundVerdict_v1_isSet:
  assumes "hasConsensus (roundVerdict_v1 as api v n)"
  shows "isSet (consensusText (roundVerdict_v1 as api v n))"
proof -
  from assms obtain r where "r \<in> set (roundResponses_v1 as api n)"
    "consensusText (roundVerdict_v1 as api v n) = Some (response r)"
    unfolding roundVerdict_v1_def by (blast dest: checkConsensus_text)
  then show ?thesis
    using roundResponses_v1_nonempty [of as api n] by (auto simp: isSet_def)
qed

lemma processConsensus_v1_valid:
  "validateConsensusData_v1 input = Inr v \<Longrightarrow>
   processConsensus_v1 as api old input =
     (case roundLoop_v1 as api v 1 [] None of
        Return reply history \<Rightarrow> (reply, history)
      | Throw e history \<Rightarrow> (Failed e ''failed'', history)
      | Leave history finalCons \<Rightarrow>
          (Concluded
             (if isSet finalCons then ''consensus_reached'' else ''max_rounds_reached'')
             (if isSet finalCons then the finalCons
              else ''No consensus reached within the maximum number of rounds'')
             (length history) history,
           history))"
  by (simp add: processConsensus_v1_def)

lemma roundLoop_v1_Return:
  "roundLoop_v1 as api v n h None = Return p h' \<Longrightarrow>
   \<exists>m. p = ToolRequestsNeeded ''tool_requests_needed'' m (roundRequests_v1 as api m)
             (generateDiscussionSummary h')
             ''Please execute the requested tools and continue the consensus process''
        \<and> \<not> hasConsensus (roundVerdict_v1 as api v m) \<and> roundRequests_v1 as api m \<noteq> []
        \<and> n \<le> m \<and> real m \<le> maxRounds_v1 v"
proof (induction "Suc (nat \<lfloor>maxRounds_v1 v\<rfloor>) - n" arbitrary: n h)
  case 0
  then have "\<not> real n \<le> maxRounds_v1 v" by (auto dest: le_nat_floor)
  then have "roundLoop_v1 as api v n h None = Leave h None" by (subst roundLoop_v1_step) simp
  with "0.prems" show ?case by simp
next
  case (Suc x)
  show ?case
  proof (cases "real n \<le> maxRounds_v1 v")
    case False
    then have "roundLoop_v1 as api v n h None = Leave h None" by (subst roundLoop_v1_step) simp
    with Suc.prems show ?thesis by simp
  next
    case le: True
    consider (p) e where "initialPrompt (availableTools_v1 v) n = Some e"
      | (t) e where "initialPrompt (availableTools_v1 v) n = None" "roundThrows_v1 as api n = Some e"
      | (a) "initialPrompt (availableTools_v1 v) n = None" "roundThrows_v1 as api n = None"
            "hasConsensus (roundVerdict_v1 as api v n)"
      | (b) "initialPrompt (availableTools_v1 v) n = None" "roundThrows_v1 as api n = None"
            "\<not> hasConsensus (roundVerdict_v1 as api v n)" "roundRequests_v1 as api n \<noteq> []"
      | (c) "initialPrompt (availableTools_v1 v) n = None" "roundThrows_v1 as api n = None"
            "\<not> hasConsensus (roundVerdict_v1 as api v n)" "roundRequests_v1 as api n = []"
      by (cases "initialPrompt (availableTools_v1 v) n"; cases "roundThrows_v1 as api n") auto
    then show ?thesis
    proof cases
      case p
      with le Suc.prems show ?thesis by (subst (asm) roundLoop_v1_step) simp
    next
      case t
      with le Suc.prems show ?thesis by (subst (asm) roundLoop_v1_step) simp
    next
      case a
      with le Suc.prems show ?thesis by (subst (asm) roundLoop_v1_step) simp
    next
      case b
      with le Suc.prems show ?thesis
        by (subst (asm) roundLoop_v1_step) (auto intro!: exI [of _ n])
    next
      case c
      with le Suc.prems
      have eq: "roundLoop_v1 as api v (Suc n) (h @ [roundOf_v1 as api v n]) None = Return p h'"
        by (subst (asm) roundLoop_v1_step) simp
      have "x = Suc (nat \<lfloor>maxRounds_v1 v\<rfloor>) - Suc n" using Suc.hyps(2) by simp
      from Suc.hyps(1) [OF this eq] show ?thesis by (auto intro: Suc_leD)
    qed
  qed
qed

lemma list_all_upt: "list_all P [a..<b] = (\<forall>m. a \<le> m \<and> m < b \<longrightarrow> P m)"
  by (auto simp: list_all_iff)

lemma reaches_loop:
  "reaches srv api d r \<Longrightarrow>
     roundLoop srv api d 1 [] None = roundLoop srv api d r (map (roundOf srv api) [1..<r]) None"
  by (rule roundLoop_first_loud) (auto simp: reaches_def list_all_upt)

lemma reaches_v1_loop:
  "reaches_v1 as api v r \<Longrightarrow>
     roundLoop_v1 as api v 1 [] None =
       roundLoop_v1 as api v r (map (roundOf_v1 as api v) [1..<r]) None"
  by (rule roundLoop_v1_first_loud) (auto simp: reaches_v1_def list_all_upt)

lemma loop_consensus:
  assumes "reaches srv api d r" and "hasConsensus (roundVerdict srv api r)"
  shows "roundLoop srv api d 1 [] None =
           Leave (map (roundOf srv api) [1..<Suc r]) (consensusText (roundVerdict srv api r))"
  using assms by (subst reaches_loop [of _ _ _ r]) (auto simp: roundLoop_step reaches_def)

lemma loop_requests:
  assumes "reaches srv api d r" and "\<not> hasConsensus (roundVerdict srv api r)"
    and "roundRequests srv api r \<noteq> []"
  shows "roundLoop srv api d 1 [] None =
           Return (ToolRequestsNeeded ''tool_requests_needed'' r (roundRequests srv api r)
                     (generateDiscussionSummary (map (roundOf srv api) [1..<Suc r]))
                     ''Please execute the requested tools and continue the consensus process'')
                  (map (roundOf srv api) [1..<Suc r])"
  using assms by (subst reaches_loop [of _ _ _ r]) (auto simp: roundLoop_step reaches_def)

lemma loop_consensus_v1:
  assumes "reaches_v1 as api v r" and "hasConsensus (roundVerdict_v1 as api v r)"
  shows "roundLoop_v1 as api v 1 [] None =
           Leave (map (roundOf_v1 as api v) [1..<Suc r]) (consensusText (roundVerdict_v1 as api v r))"
  using assms by (subst reaches_v1_loop [of _ _ _ r]) (auto simp: roundLoop_v1_step reaches_v1_def)

lemma loop_requests_v1:
  assumes "reaches_v1 as api v r" and "\<not> hasConsensus (roundVerdict_v1 as api v r)"
    and "roundRequests_v1 as api r \<noteq> []"
  shows "roundLoop_v1 as api v 1 [] None =
           Return (ToolRequestsNeeded ''tool_requests_needed'' r (roundRequests_v1 as api r)
                     (generateDiscussionSummary (map (roundOf_v1 as api v) [1..<Suc r]))
                     ''Please execute the requested tools and continue the consensus process'')
                  (map (roundOf_v1 as api v) [1..<Suc r])"
  using assms by (subst reaches_v1_loop [of _ _ _ r]) (auto simp: roundLoop_v1_step reaches_v1_def)

lemma exit_without_consensus:
  assumes "fst (processConsensus srv api old input) = ToolRequestsNeeded s n q y a"
  shows "\<not> hasConsensus (roundVerdict srv api n) \<and> q = roundRequests srv api n \<and> q \<noteq> []"
proof (cases "validateConsensusData input")
  case (Inl e)
  with assms show ?thesis by (simp add: processConsensus_def)
next
  case (Inr d)
  show ?thesis
  proof (cases "roundLoop srv api d 1 [] None")
    case (Leave h c)
    with Inr assms show ?thesis
      by (simp add: processConsensus_valid summaryPass_def Let_def split: prod.splits)
  next
    case (Return p h)
    with Inr assms have "p = ToolRequestsNeeded s n q y a" by (simp add: processConsensus_valid)
    with roundLoop_Return [OF Return] show ?thesis by auto
  next
    case (Throw e h)
    with Inr assms show ?thesis by (simp add: processConsensus_valid)
  qed
qed

lemma exit_without_consensus_v1:
  assumes "validateConsensusData_v1 input = Inr v"
    and "fst (processConsensus_v1 as api old input) = ToolRequestsNeeded s n q y a"
  shows "\<not> hasConsensus (roundVerdict_v1 as api v n) \<and> q = roundRequests_v1 as api n \<and> q \<noteq> []"
proof (cases "roundLoop_v1 as api v 1 [] None")
  case (Leave h c)
  with assms show ?thesis by (simp add: processConsensus_v1_valid)
next
  case (Return p h)
  with assms have "p = ToolRequestsNeeded s n q y a" by (simp add: processConsensus_v1_valid)
  with roundLoop_v1_Return [OF Return] show ?thesis by auto
next
  case (Throw e h)
  with assms show ?thesis by (simp add: processConsensus_v1_valid)
qed

lemma summaryPass_eq:
  "summaryPass srv api h c =
     (Completed
        (if isSet c then ''consensus_reached'' else ''max_rounds_reached'')
        (if isSet c then the c else ''No consensus reached within the maximum number of rounds'')
        (Suc (length h)) (h @ [summaryRound srv api h c])
        (map (\<lambda>a. (idOf a, response (summaryResponse api (Suc (length h)) a))) (advisors srv))
        ''If the consensus includes source code or requests a code artifact, please provide the full source code in your final answer (do not truncate).'',
      h @ [summaryRound srv api h c])"
  by (simp add: summaryPass_def collect_summaryTask summaryRound_def summaryResponse_def Let_def)

lemma consensus_run:
  assumes "validateConsensusData input = Inr d" and "reaches srv api d r"
    and "hasConsensus (roundVerdict srv api r)"
  shows "processConsensus srv api old input =
           summaryPass srv api (map (roundOf srv api) [1..<Suc r])
             (consensusText (roundVerdict srv api r))"
  using assms(1) loop_consensus [OF assms(2,3)] by (simp add: processConsensus_valid)

lemma consensus_run_v1:
  assumes "validateConsensusData_v1 input = Inr v" and "reaches_v1 as api v r"
    and "hasConsensus (roundVerdict_v1 as api v r)"
  shows "processConsensus_v1 as api old input =
           (Concluded ''consensus_reached'' (the (consensusText (roundVerdict_v1 as api v r))) r
              (map (roundOf_v1 as api v) [1..<Suc r]),
            map (roundOf_v1 as api v) [1..<Suc r])"
  using assms(1) roundVerdict_v1_isSet [OF assms(3)] loop_consensus_v1 [OF assms(2,3)]
  by (simp add: processConsensus_v1_valid)

lemma tool_requests_run:
  assumes "validateConsensusData input = Inr d" and "reaches srv api d r"
    and "\<not> hasConsensus (roundVerdict srv api r)" and "roundRequests srv api r \<noteq> []"
  shows "processConsensus srv api old input =
           (ToolRequestsNeeded ''tool_requests_needed'' r (roundRequests srv api r)
              (generateDiscussionSummary (map (roundOf srv api) [1..<Suc r]))
              ''Please execute the requested tools and continue the consensus process'',
            map (roundOf srv api) [1..<Suc r])"
  using assms(1) loop_requests [OF assms(2-4)] by (simp add: processConsensus_valid)

lemma tool_requests_run_v1:
  assumes "validateConsensusData_v1 input = Inr v" and "reaches_v1 as api v r"
    and "\<not> hasConsensus (roundVerdict_v1 as api v r)" and "roundRequests_v1 as api r \<noteq> []"
  shows "processConsensus_v1 as api old input =
           (ToolRequestsNeeded ''tool_requests_needed'' r (roundRequests_v1 as api r)
              (generateDiscussionSummary (map (roundOf_v1 as api v) [1..<Suc r]))
              ''Please execute the requested tools and continue the consensus process'',
            map (roundOf_v1 as api v) [1..<Suc r])"
  using assms(1) loop_requests_v1 [OF assms(2-4)] by (simp add: processConsensus_v1_valid)

lemma example_valid: "validateConsensusData exampleInput = Inr exampleData"
  by code_simp

lemma example_valid_v1: "validateConsensusData_v1 exampleInput = Inr exampleData_v1"
  by code_simp

lemma agreeing_facts:
  "reaches panel agreeingProvider exampleData 1"
  "hasConsensus (roundVerdict panel agreeingProvider 1)"
  "roundRequests panel agreeingProvider 1 \<noteq> []"
  by code_simp+

lemma agreeing_facts_v1:
  "reaches_v1 (advisors panel) agreeingProvider exampleData_v1 1"
  "hasConsensus (roundVerdict_v1 (advisors panel) agreeingProvider exampleData_v1 1)"
  "roundRequests_v1 (advisors panel) agreeingProvider 1 \<noteq> []"
  by code_simp+

lemma asking_facts:
  "reaches panel askingProvider exampleData 1"
  "\<not> hasConsensus (roundVerdict panel askingProvider 1)"
  "roundRequests panel askingProvider 1 \<noteq> []"
  by code_simp+

lemma asking_facts_v1:
  "reaches_v1 (advisors panel) askingProvider exampleData_v1 1"
  "\<not> hasConsensus (roundVerdict_v1 (advisors panel) askingProvider exampleData_v1 1)"
  "roundRequests_v1 (advisors panel) askingProvider 1 \<noteq> []"
  by code_simp+

lemma validateConsensusData_iff:
  "validateConsensusData input = Inr d \<longleftrightarrow>
     getProperty input ''problem'' = Inr (JSString (problem d)) \<and> problem d \<noteq> []
     \<and> getProperty input ''availableTools'' = Inr (JSArray (availableTools d))"
  by (cases d)
     (auto simp: validateConsensusData_def split: sum.splits jsvalue.splits bool.splits)

lemma throwing_run:
  assumes "validateConsensusData input = Inr d" and "joinThrows (availableTools d)"
    and "1 \<le> maxRounds srv"
  shows "processConsensus srv api old input = (Failed TypeError ''failed'', [])"
  using assms(1) roundLoop_throws [OF assms(2,3), of api "[]"]
  by (simp add: processConsensus_valid)

lemma throwing_run_v1:
  assumes "validateConsensusData_v1 input = Inr v" and "joinThrows (availableTools_v1 v)"
  shows "processConsensus_v1 as api old input = (Failed TypeError ''failed'', [])"
proof -
  from assms(1) have "1 \<le> maxRounds_v1 v"
    by (auto simp: validateConsensusData_v1_def
          split: sum.splits jsvalue.splits bool.splits if_splits)
  then have "roundLoop_v1 as api v 1 [] None = Throw TypeError []"
    using assms(2) by (subst roundLoop_v1_step) (simp add: initialPrompt_def)
  with assms(1) show ?thesis by (simp add: processConsensus_v1_valid)
qed

lemma valid_run_status:
  assumes "validateConsensusData input = Inr d" and "\<not> joinThrows (availableTools d)"
  shows "status (fst (processConsensus srv api old input)) \<noteq> ''failed''"
proof (cases "roundLoop srv api d 1 [] None")
  case (Leave h c)
  with assms show ?thesis by (simp add: processConsensus_valid status_summaryPass)
next
  case (Return p h)
  from roundLoop_Return [OF Return] Return assms show ?thesis
    by (auto simp: processConsensus_valid)
next
  case (Throw e h)
  from roundLoop_Throw [OF Throw] assms(2) show ?thesis by simp
qed

lemma valid_run_rounds:
  assumes "validateConsensusData input = Inr d"
    and "snd (processConsensus srv api old input) \<noteq> []"
  shows "status (fst (processConsensus srv api old input)) \<noteq> ''failed''"
proof (cases "roundLoop srv api d 1 [] None")
  case (Leave h c)
  with assms show ?thesis by (simp add: processConsensus_valid status_summaryPass)
next
  case (Return p h)
  from roundLoop_Return [OF Return] Return assms show ?thesis
    by (auto simp: processConsensus_valid)
next
  case (Throw e h)
  from roundLoop_ledger [of 1 srv api d "[]"] obtain k
    where k: "ledger (roundLoop srv api d 1 [] None) = map (roundOf srv api) [1..<1 + k]"
    by auto
  from roundLoop_Throw [OF Throw] have j: "joinThrows (availableTools d)" by simp
  show ?thesis
  proof (cases "1 \<le> maxRounds srv")
    case True
    from throwing_run [OF assms(1) j True] assms(2) show ?thesis by simp
  next
    case False
    then have "roundLoop srv api d 1 [] None = Leave [] None" by (subst roundLoop_step) simp
    with Throw show ?thesis by simp
  qed
qed

lemma roundLoop_prefix: "prefix h (ledger (roundLoop srv api d n h None))"
  using roundLoop_ledger [of n srv api d h] by (auto simp: prefix_def)

lemma roundLoop_length:
  "length (ledger (roundLoop srv api d n h None)) \<le> length h + (Suc (maxRounds srv) - n)"
proof -
  from roundLoop_ledger [of n srv api d h] obtain k
    where k: "n + k \<le> max n (Suc (maxRounds srv))"
      "ledger (roundLoop srv api d n h None) = h @ map (roundOf srv api) [n..<n + k]"
    by blast
  from k(1) have "k \<le> Suc (maxRounds srv) - n" by (auto simp: max_def split: if_splits)
  with k(2) show ?thesis by simp
qed

lemma run_ledger:
  assumes "validateConsensusData input = Inr d"
  shows "\<exists>k extra. k \<le> maxRounds srv \<and> length extra \<le> 1 \<and>
     snd (processConsensus srv api old input) = map (roundOf srv api) [1..<Suc k] @ extra \<and>
     (extra = [] \<or> (\<exists>c. extra = [summaryRound srv api (map (roundOf srv api) [1..<Suc k]) c]))"
proof -
  from roundLoop_ledger [of 1 srv api d "[]"] obtain k
    where k: "1 + k \<le> max 1 (Suc (maxRounds srv))"
      "ledger (roundLoop srv api d 1 [] None) = map (roundOf srv api) [1..<1 + k]"
    by auto
  from k(1) have le: "k \<le> maxRounds srv" by (auto simp: max_def split: if_splits)
  show ?thesis
  proof (cases "roundLoop srv api d 1 [] None")
    case (Leave h c)
    with k(2) have "h = map (roundOf srv api) [1..<Suc k]" by simp
    with Leave assms le show ?thesis
      by (intro exI [of _ k] exI [of _ "[summaryRound srv api h c]"])
         (auto simp: processConsensus_valid snd_summaryPass)
  next
    case (Return p h)
    with k(2) have "h = map (roundOf srv api) [1..<Suc k]" by simp
    with Return assms le show ?thesis
      by (intro exI [of _ k] exI [of _ "[]"]) (auto simp: processConsensus_valid)
  next
    case (Throw e h)
    with k(2) have "h = map (roundOf srv api) [1..<Suc k]" by simp
    with Throw assms le show ?thesis
      by (intro exI [of _ k] exI [of _ "[]"]) (auto simp: processConsensus_valid)
  qed
qed

lemma responses_roundOf [simp]:
  "responses (roundOf srv api n) = map (advisorResponse api n) (advisors srv)"
  "roundNo (roundOf srv api n) = n"
  by (simp_all add: roundOf_def roundResponses_map)

lemma roundOf_responses:
  "map advisorId (responses (roundOf srv api n)) = map idOf (advisors srv)"
  by simp

lemma summaryRound_responses:
  "map advisorId (responses (summaryRound srv api h c)) = map idOf (advisors srv)"
  by (simp add: summaryRound_def summaryResponse_def)

lemma summary_rejected:
  "api n a = Rejected e \<Longrightarrow> response (summaryResponse api n a) = ''Error generating summary: '' @ e"
  by (simp add: summaryResponse_def queryAdvisor_def)

lemma run_round_cases:
  assumes "validateConsensusData input = Inr d"
    and "rd \<in> set (snd (processConsensus srv api old input))"
  shows "rd = roundOf srv api (roundNo rd) \<or>
         responses rd = map (summaryResponse api (roundNo rd)) (advisors srv)"
proof -
  from run_ledger [OF assms(1), of srv api old] obtain k extra
    where k: "snd (processConsensus srv api old input) = map (roundOf srv api) [1..<Suc k] @ extra"
      and e: "extra = [] \<or> (\<exists>c. extra = [summaryRound srv api (map (roundOf srv api) [1..<Suc k]) c])"
    by blast
  from assms(2) k consider "rd \<in> set (map (roundOf srv api) [1..<Suc k])" | "rd \<in> set extra"
    by auto
  then show ?thesis
  proof cases
    case 1
    then obtain m where "rd = roundOf srv api m" by auto
    then show ?thesis by simp
  next
    case 2
    with e obtain c where "rd = summaryRound srv api (map (roundOf srv api) [1..<Suc k]) c"
      by auto
    then show ?thesis by (simp add: summaryRound_def)
  qed
qed

lemma remdups_constant: "xs \<noteq> [] \<Longrightarrow> \<forall>x \<in> set xs. x = c \<Longrightarrow> remdups xs = [c]"
proof (induction xs)
  case Nil
  then show ?case by simp
next
  case (Cons x xs)
  then show ?case by (cases xs) auto
qed

lemma checkConsensus_identical:
  assumes "2 \<le> length rs" and "\<forall>r \<in> set rs. response r = t"
  shows "checkConsensus rs th = \<lparr>hasConsensus = True, consensusText = Some t\<rparr>"
proof -
  from assms(1) have ne: "rs \<noteq> []" by auto
  then have "hd rs \<in> set rs" by simp
  with assms(2) have hd: "response (hd rs) = t" by simp
  have "\<forall>x \<in> set (map normalized rs). x = trim (toLowerCase t)"
    using assms(2) by (simp add: normalized_def)
  with ne have "remdups (map normalized rs) = [trim (toLowerCase t)]"
    by (intro remdups_constant) auto
  with assms(1) hd show ?thesis by (simp add: checkConsensus_def Let_def)
qed

lemma all_rejected_verdict:
  assumes "2 \<le> length (advisors srv)" and "\<forall>a \<in> set (advisors srv). api n a = Rejected e"
  shows "roundVerdict srv api n =
           \<lparr>hasConsensus = True, consensusText = Some (''Error querying advisor: '' @ e)\<rparr>"
  unfolding roundVerdict_def
  using assms by (intro checkConsensus_identical) (auto simp: roundResponses_map response_rejected)

lemma emptyTools_props:
  "getProperty emptyToolsInput ''problem'' = Inr (JSString ''Adopt policy X?'')"
  "getProperty emptyToolsInput ''availableTools'' = Inr (JSArray [])"
  "getProperty emptyToolsInput ''maxRounds'' = Inr (JSNumber 5)"
  "getProperty emptyToolsInput ''consensusThreshold'' = Inr (JSNumber (4 / 5))"
  by (simp_all add: emptyToolsInput_def getProperty_def)

lemma split_run_length:
  "length (snd (processConsensus strictPanel splitProvider [] exampleInput)) = 3"
  by code_simp

lemma one_failing_run:
  "firstRound (processConsensus strictPanel oneFailingProvider [] exampleInput)
     \<in> set (snd (processConsensus strictPanel oneFailingProvider [] exampleInput))"
  "roundNo (firstRound (processConsensus strictPanel oneFailingProvider [] exampleInput)) = 1"
  "response (responses (firstRound (processConsensus strictPanel oneFailingProvider [] exampleInput)) ! 0)
     \<noteq> ''Error generating summary: timeout''"
  "length (snd (processConsensus strictPanel oneFailingProvider [] exampleInput)) = 3"
  by code_simp+

lemma one_failing_first:
  "0 < length (advisors strictPanel)"
  "oneFailingProvider 1 (advisors strictPanel ! 0) = Rejected ''timeout''"
  "map idOf (advisors strictPanel) =
     [''advisor_alpha'', ''advisor_beta'', ''advisor_gamma'', ''advisor_delta'', ''advisor_epsilon'']"
  by code_simp+

lemma failing_all: "\<forall>a \<in> set (advisors panel). failingProvider 1 a = Rejected ''timeout''"
  by (simp add: failingProvider_def)

lemma panel_size: "2 \<le> length (advisors panel)"
  by (simp add: panel_def preConfiguredAdvisors_def)

lemma failing_reaches: "reaches panel failingProvider exampleData 1"
  by (simp add: reaches_def panel_def exampleData_def joinThrows_def)

lemma one_failing_verdicts:
  "\<not> hasConsensus (roundVerdict strictPanel oneFailingProvider 1)"
  "hasConsensus
     (checkConsensus
        (filter (\<lambda>r. response r \<noteq> ''Error querying advisor: timeout'')
           (roundResponses strictPanel oneFailingProvider 1))
        (consensusThreshold strictPanel))"
  by code_simp+

lemma parseLoop_matches:
  "parseLoop s reqs warns =
     (reqs @ map toRequest (filter parsable (matches s)),
      warns @ map warningFor (filter (\<lambda>m. \<not> parsable m) (matches s)))"
proof (induction s reqs warns rule: parseLoop.induct)
  case (1 s reqs warns)
  show ?case
  proof (cases "exec s")
    case None
    then have "matches s = []" by (subst matches.simps) simp
    moreover from None have "parseLoop s reqs warns = (reqs, warns)"
      by (subst parseLoop.simps) simp
    ultimately show ?thesis by simp
  next
    case (Some p)
    obtain m rest where p: "p = (m, rest)" by (cases p)
    with Some have ex: "exec s = Some (m, rest)" by simp
    then have ms: "matches s = m # matches rest" by (subst matches.simps) simp
    show ?thesis
    proof (cases "JSON_parse (m ! 2)")
      case None
      then have np: "\<not> parsable m" by (simp add: parsable_def)
      have w: "warningFor m = ''Failed to parse tool request: '' @ m ! 0"
        by (simp add: warningFor_def)
      have "parseLoop s reqs warns = parseLoop rest reqs (warns @ [warningFor m])"
        using ex None by (subst parseLoop.simps) (simp add: w)
      also have "\<dots> = (reqs @ map toRequest (filter parsable (matches rest)),
          (warns @ [warningFor m]) @ map warningFor (filter (\<lambda>m. \<not> parsable m) (matches rest)))"
        using "1.IH"(1) [OF ex refl None] by (simp only: w)
      finally show ?thesis using ms np by simp
    next
      case (Some ps)
      then have yes: "parsable m" and tr: "toRequest m = \<lparr>tool = m ! 1, parameters = ps, reason = m ! 3\<rparr>"
        by (simp_all add: parsable_def toRequest_def)
      have "parseLoop s reqs warns = parseLoop rest (reqs @ [toRequest m]) warns"
        using ex Some tr by (subst parseLoop.simps) simp
      also have "\<dots> = ((reqs @ [toRequest m]) @ map toRequest (filter parsable (matches rest)),
          warns @ map warningFor (filter (\<lambda>m. \<not> parsable m) (matches rest)))"
        using "1.IH"(2) [OF ex refl Some] by (simp only: tr)
      finally show ?thesis using ms yes by simp
    qed
  qed
qed

lemma stripPrefix_None: "\<not> prefix l s \<Longrightarrow> stripPrefix l s = None"
  by (induction l s rule: stripPrefix.induct) auto

lemma firstSome_None: "\<forall>x \<in> set xs. f x = None \<Longrightarrow> firstSome f xs = None"
  by (induction xs) auto

lemma firstSome_greedy:
  assumes "\<forall>k. lo \<le> k \<and> k < n \<longrightarrow> f k = None"
  shows "firstSome f (rev [lo..<Suc n]) = (if lo \<le> n then f n else None)"
proof (cases "lo \<le> n")
  case True
  then have "rev [lo..<Suc n] = n # rev [lo..<n]" by simp
  moreover have "firstSome f (rev [lo..<n]) = None"
    using assms by (intro firstSome_None) auto
  ultimately show ?thesis using True by (simp split: option.splits)
next
  case False
  then show ?thesis by simp
qed

lemma consumed_None [simp]: "consumed seg None = None"
  by (simp add: consumed_def)

lemma literal_after_class:
  assumes "\<not> inClass cls c" and "k < length (takeWhile (inClass cls) s)"
  shows "consumed (take k s) (matchHere (Lit (c # l) # ns) (drop k s)) = None"
proof -
  from assms(2) have in_tw: "takeWhile (inClass cls) s ! k \<in> set (takeWhile (inClass cls) s)"
    by simp
  from assms(2) have eq: "takeWhile (inClass cls) s ! k = s ! k"
    by (rule takeWhile_nth)
  from in_tw eq have "inClass cls (s ! k)" by (auto dest: set_takeWhileD)
  with assms(1) have ne: "c \<noteq> s ! k" by auto
  from assms(2) have "k < length s"
    using length_takeWhile_le [of "inClass cls" s] by simp
  then have "drop k s = s ! k # drop (Suc k) s" by (simp add: Cons_nth_drop_Suc)
  with ne show ?thesis by simp
qed

lemma matchHere_Star_greedy:
  assumes "\<not> inClass cls c"
  shows "matchHere (Star cls # Lit (c # l) # ns) s =
           consumed (takeWhile (inClass cls) s)
             (matchHere (Lit (c # l) # ns) (dropWhile (inClass cls) s))"
proof -
  let ?n = "length (takeWhile (inClass cls) s)"
  let ?f = "\<lambda>k. consumed (take k s) (matchHere (Lit (c # l) # ns) (drop k s))"
  have "matchHere (Star cls # Lit (c # l) # ns) s = firstSome ?f (rev [0..<Suc ?n])"
    by (simp add: repetitions_def)
  also have "\<dots> = ?f ?n"
    using literal_after_class [OF assms] by (subst firstSome_greedy) auto
  also have "\<dots> = consumed (takeWhile (inClass cls) s)
             (matchHere (Lit (c # l) # ns) (dropWhile (inClass cls) s))"
    by (simp only: takeWhile_eq_take [symmetric] dropWhile_eq_drop [symmetric])
  finally show ?thesis .
qed

lemma matchHere_Plus_greedy:
  assumes "\<not> inClass cls c"
  shows "matchHere (Plus cls # Lit (c # l) # ns) s =
           (if takeWhile (inClass cls) s = [] then None
            else consumed (takeWhile (inClass cls) s)
                   (matchHere (Lit (c # l) # ns) (dropWhile (inClass cls) s)))"
proof -
  let ?n = "length (takeWhile (inClass cls) s)"
  let ?f = "\<lambda>k. consumed (take k s) (matchHere (Lit (c # l) # ns) (drop k s))"
  have "matchHere (Plus cls # Lit (c # l) # ns) s = firstSome ?f (rev [1..<Suc ?n])"
    by (simp add: repetitions_def)
  also have "\<dots> = (if 1 \<le> ?n then ?f ?n else None)"
    using literal_after_class [OF assms] by (subst firstSome_greedy) auto
  also have "?f ?n = consumed (takeWhile (inClass cls) s)
             (matchHere (Lit (c # l) # ns) (dropWhile (inClass cls) s))"
    by (simp only: takeWhile_eq_take [symmetric] dropWhile_eq_drop [symmetric])
  finally show ?thesis by (cases "takeWhile (inClass cls) s") auto
qed

lemma matchHere_Lit:
  "matchHere (Lit l # ns) s =
     (case stripPrefix l s of None \<Rightarrow> None | Some r \<Rightarrow> consumed l (matchHere ns r))"
  by simp

lemma takeWhile_stop:
  "\<forall>x \<in> set w. P x \<Longrightarrow> \<not> P c \<Longrightarrow> takeWhile P (w @ c # s) = w"
  "\<forall>x \<in> set w. P x \<Longrightarrow> \<not> P c \<Longrightarrow> dropWhile P (w @ c # s) = c # s"
  by (induction w) auto

lemma not_space [simp]:
  "\<not> isWhiteSpace (CHR ''{'')" "\<not> isWhiteSpace (CHR ''}'')" "\<not> isWhiteSpace (CHR 0x22)"
  "\<not> isWhiteSpace (CHR '','')"
  by (simp_all add: isWhiteSpace_def)

lemma class_run [simp]:
  "list_all (inClass cls) w \<Longrightarrow> \<not> inClass cls c \<Longrightarrow> takeWhile (inClass cls) (w @ c # s) = w"
  "list_all (inClass cls) w \<Longrightarrow> \<not> inClass cls c \<Longrightarrow> dropWhile (inClass cls) (w @ c # s) = c # s"
  by (simp_all add: list_all_iff takeWhile_stop)

lemma class_stop [simp]:
  "\<not> inClass cls c \<Longrightarrow> takeWhile (inClass cls) (c # s) = []"
  "\<not> inClass cls c \<Longrightarrow> dropWhile (inClass cls) (c # s) = c # s"
  by simp_all

lemma list_all_inClass [simp]:
  "list_all (inClass Space) w = list_all isWhiteSpace w"
  "list_all (inClass NotQuote) w = (CHR 0x22 \<notin> set w)"
  "list_all (inClass NotBrace) w = (CHR ''}'' \<notin> set w)"
  by (auto simp: list_all_iff)

lemmas greedy =
  matchHere_Lit matchHere_Star_greedy matchHere_Plus_greedy toolRegex_def
  directiveHead_def toolMember_def parametersKey_def

lemma empty_object_unmatched:
  assumes "list_all isWhiteSpace (w1 @ w2 @ w3 @ w4 @ w5 @ w6)" and "CHR 0x22 \<notin> set t"
  shows \<open>matchHere toolRegex
           (directiveHead w1 w2 @ toolMember w3 t w4 w5 @ parametersKey w6 @ ''{}'' @ rest) = None\<close>
  using assms by (simp add: greedy del: matchHere.simps)

lemma wrong_first_key_unmatched:
  assumes "list_all isWhiteSpace (w1 @ w2)"
  shows \<open>matchHere toolRegex (directiveHead w1 w2 @ ''"parameters":'' @ rest) = None\<close>
    and \<open>matchHere toolRegex (directiveHead w1 w2 @ ''"reason":'' @ rest) = None\<close>
  using assms by (simp_all add: greedy del: matchHere.simps)

lemma wrong_second_key_unmatched:
  assumes "list_all isWhiteSpace (w1 @ w2 @ w3 @ w4 @ w5)" and "CHR 0x22 \<notin> set t"
  shows \<open>matchHere toolRegex
           (directiveHead w1 w2 @ toolMember w3 t w4 w5 @ ''"reason":'' @ rest) = None\<close>
  using assms by (simp add: greedy del: matchHere.simps)

lemma nested_object_unmatched:
  assumes "list_all isWhiteSpace (w1 @ w2 @ w3 @ w4 @ w5 @ w6 @ w7)" and "CHR 0x22 \<notin> set t"
    and "CHR ''}'' \<notin> set a"
  shows \<open>matchHere toolRegex
           (directiveHead w1 w2 @ toolMember w3 t w4 w5 @ parametersKey w6
              @ ''{'' @ a @ ''}'' @ w7 @ ''}'' @ rest) = None\<close>
  using assms by (simp add: greedy del: matchHere.simps)

lemma consumed_Some_eq [simp]: "consumed seg (Some (segs, rest)) = Some (seg # segs, rest)"
  by (simp add: consumed_def)

lemma well_formed_matched:
  assumes "list_all isWhiteSpace (w1 @ w2 @ w3 @ w4 @ w5 @ w6 @ w7 @ w8 @ w9 @ w10)"
    and "CHR 0x22 \<notin> set t" "t \<noteq> []" and "CHR ''}'' \<notin> set a" "a \<noteq> []"
    and "CHR 0x22 \<notin> set r" "r \<noteq> []"
  shows \<open>map_option (\<lambda>(segs, rest). (groups segs, rest))
           (matchHere toolRegex
             (directiveHead w1 w2 @ toolMember w3 t w4 w5 @ parametersKey w6
                @ ''{'' @ a @ ''}'' @ w7 @ '','' @ w8 @ ''"reason":'' @ w9
                @ ''"'' @ r @ ''"'' @ w10 @ ''}'' @ rest))
         = Some ([directiveHead w1 w2 @ toolMember w3 t w4 w5 @ parametersKey w6
                    @ ''{'' @ a @ ''}'' @ w7 @ '','' @ w8 @ ''"reason":'' @ w9
                    @ ''"'' @ r @ ''"'' @ w10 @ ''}'',
                  t, ''{'' @ a @ ''}'', r], rest)\<close>
  using assms by (simp add: greedy groups_def del: matchHere.simps(2))

lemma matchHere_needs_marker: "stripPrefix marker u = None \<Longrightarrow> matchHere toolRegex u = None"
  by (subst toolRegex_head) (simp add: marker_def)

lemma exec_None: "list_all (\<lambda>u. matchHere toolRegex u = None) (suffixes s) \<Longrightarrow> exec s = None"
proof (induction s)
  case Nil
  then show ?case by (subst exec.simps) simp
next
  case (Cons c s)
  then show ?case by (subst exec.simps) simp
qed

lemma exec_at:
  "exec s = Some (m, rest) \<Longrightarrow>
   \<exists>i segs. matchHere toolRegex (drop i s) = Some (segs, rest) \<and> m = groups segs
            \<and> i + length (m ! 0) + length rest = length s"
proof (induction s rule: exec.induct)
  case (1 s)
  show ?case
  proof (cases "matchHere toolRegex s")
    case (Some p)
    obtain segs r where p: "p = (segs, r)" by (cases p)
    with Some "1.prems" have mr: "m = groups segs" "r = rest"
      by (subst (asm) exec.simps, simp)+
    from Some p have "s = concat segs @ r" by (simp add: matchHere_concat)
    then have "length s = length (concat segs) + length r" by (metis length_append)
    with mr Some p show ?thesis
      by (intro exI [of _ 0] exI [of _ segs]) (simp add: groups_def)
  next
    case None
    show ?thesis
    proof (cases s)
      case Nil
      with None "1.prems" show ?thesis by (subst (asm) exec.simps) simp
    next
      case (Cons c s')
      with None "1.prems" have "exec s' = Some (m, rest)" by (subst (asm) exec.simps) simp
      from "1.IH" [OF None Cons this] obtain i segs
        where "matchHere toolRegex (drop i s') = Some (segs, rest)" "m = groups segs"
          "i + length (m ! 0) + length rest = length s'"
        by blast
      with Cons show ?thesis by (intro exI [of _ "Suc i"] exI [of _ segs]) simp
    qed
  qed
qed

lemma matchStartsFrom_sound:
  "i \<in> set (matchStartsFrom off s) \<Longrightarrow>
     off \<le> i \<and> matchHere toolRegex (drop (i - off) s) \<noteq> None"
proof (induction off s rule: matchStartsFrom.induct)
  case (1 off s)
  show ?case
  proof (cases "exec s")
    case None
    with "1.prems" show ?thesis by (subst (asm) matchStartsFrom.simps) simp
  next
    case (Some p)
    obtain m rest where p: "p = (m, rest)" by (cases p)
    from exec_at [of s m rest] Some p obtain j segs
      where j: "matchHere toolRegex (drop j s) = Some (segs, rest)" "m = groups segs"
        "j + length (m ! 0) + length rest = length s"
      by auto
    from "1.prems" Some p
    consider "i = off + (length s - length rest) - length (m ! 0)"
      | "i \<in> set (matchStartsFrom (off + (length s - length rest)) rest)"
      by (subst (asm) matchStartsFrom.simps) auto
    then show ?thesis
    proof cases
      case 1
      with j(3) have "i = off + j" by simp
      with j(1) show ?thesis by simp
    next
      case 2
      from "1.IH" [OF Some p [symmetric] 2]
      have le: "off + (length s - length rest) \<le> i"
        and ne: "matchHere toolRegex (drop (i - (off + (length s - length rest))) rest) \<noteq> None"
        by simp_all
      from j(1) have "drop j s = concat segs @ rest" by (simp add: matchHere_concat)
      moreover from j(2) have "length (concat segs) = length (m ! 0)" by (simp add: groups_def)
      ultimately have "rest = drop (length (m ! 0)) (drop j s)" by simp
      with j(3) have rest: "rest = drop (length s - length rest) s" by (simp add: add.commute)
      have "drop (i - (off + (length s - length rest))) rest = drop (i - off) s"
        using le by (subst rest) simp
      with ne le show ?thesis by simp
    qed
  qed
qed

lemma matchStarts_sound: "i \<in> set (matchStarts s) \<Longrightarrow> matchHere toolRegex (drop i s) \<noteq> None"
  using matchStartsFrom_sound [of i 0 s] by (simp add: matchStarts_def)

lemma unmatched_not_started:
  "matchHere toolRegex occ = None \<Longrightarrow> length pre \<notin> set (matchStarts (pre @ occ))"
  using matchStarts_sound [of "length pre" "pre @ occ"] by auto

lemma matchStartsFrom_length: "length (matchStartsFrom off s) = length (matches s)"
proof (induction off s rule: matchStartsFrom.induct)
  case (1 off s)
  show ?case
  proof (cases "exec s")
    case None
    then show ?thesis by (subst matchStartsFrom.simps, subst matches.simps) simp
  next
    case (Some p)
    obtain m rest where p: "p = (m, rest)" by (cases p)
    from "1.IH" [OF Some p [symmetric]] Some p show ?thesis
      by (subst matchStartsFrom.simps, subst matches.simps) simp
  qed
qed

lemma lone_marker_drop:
  assumes "matchHere toolRegex occ = None" and "markerStarts (pre @ occ) = [length pre]"
  shows "parseToolRequests (pre @ occ) = ([], [])"
proof -
  have "matchHere toolRegex u = None" if "u \<in> set (suffixes (pre @ occ))" for u
  proof -
    from that obtain zs where zs: "pre @ occ = zs @ u" by (auto simp: suffix_def)
    then have u: "u = drop (length zs) (pre @ occ)" by (metis append_eq_conv_conj)
    show ?thesis
    proof (cases "length zs = length pre")
      case True
      with zs have "u = occ" by simp
      with assms(1) show ?thesis by simp
    next
      case False
      have "stripPrefix marker u = None"
      proof (rule ccontr)
        assume s: "stripPrefix marker u \<noteq> None"
        then have "u \<noteq> []" by (auto simp: marker_def)
        with zs have "length zs < length (pre @ occ)"
          by (metis length_append less_add_same_cancel1 length_greater_0_conv)
        moreover from s u have "stripPrefix marker (drop (length zs) (pre @ occ)) \<noteq> None"
          by simp
        ultimately have "length zs \<in> set (markerStarts (pre @ occ))"
          unfolding markerStarts_def by simp
        with assms(2) False show False by simp
      qed
      then show ?thesis by (rule matchHere_needs_marker)
    qed
  qed
  then have "exec (pre @ occ) = None" by (intro exec_None) (simp add: list_all_iff)
  then show ?thesis by (simp add: parseToolRequests_def parseLoop.simps)
qed



lemma example_shapes:
  \<open>emptyParamsText =
     directiveHead '' '' [] @ toolMember '' '' ''web_search'' [] '' '' @ parametersKey '' ''
       @ ''{}'' @ '', "reason": "r"}''\<close>
  \<open>parametersFirstText =
     directiveHead '' '' [] @ ''"parameters":'' @ '' {"q": 1}, "tool": "web_search", "reason": "r"}''\<close>
  \<open>reorderedText =
     directiveHead '' '' [] @ toolMember '' '' ''web_search'' [] '' '' @ ''"reason":''
       @ '' "r", "parameters": {"q": 1}}''\<close>
  \<open>nestedText =
     directiveHead '' '' [] @ toolMember '' '' ''web_search'' [] '' '' @ parametersKey '' ''
       @ ''{'' @ ''"a": {"b": 1'' @ ''}'' @ [] @ ''}'' @ '', "reason": "r"}''\<close>
  by (simp_all add: emptyParamsText_def parametersFirstText_def reorderedText_def nestedText_def
        directiveHead_def toolMember_def parametersKey_def)

lemma embedded_shapes:
  \<open>embeddedEmptyText =
     ''I need data. '' @ directiveHead '' '' [] @ toolMember '' '' ''web_search'' [] '' ''
       @ parametersKey '' '' @ ''{}'' @ '', "reason": "r"} Thanks.''\<close>
  \<open>embeddedNestedText =
     ''I need data. '' @ directiveHead '' '' [] @ toolMember '' '' ''web_search'' [] '' ''
       @ parametersKey '' '' @ ''{'' @ ''"a": {"b": 1'' @ ''}'' @ [] @ ''}''
       @ '', "reason": "r"} Thanks.''\<close>
  \<open>emptyThenGoodText =
     [] @ directiveHead '' '' [] @ toolMember '' '' ''web_search'' [] '' ''
       @ parametersKey '' '' @ ''{}'' @ '', "reason": "r"} and '' @ directiveText\<close>
  by (simp_all add: embeddedEmptyText_def embeddedNestedText_def emptyThenGoodText_def
        emptyParamsText_def nestedText_def directiveHead_def toolMember_def parametersKey_def)

lemma embedded_markers:
  "markerStarts embeddedEmptyText = [13]" "markerStarts embeddedNestedText = [13]"
  "matchStarts emptyThenGoodText = [74]"
  by code_simp+

lemma empty_then_good_parse:
  "parseToolRequests emptyThenGoodText =
     ([\<lparr>tool = ''web_search'',
        parameters = JObject [([113, 117, 101, 114, 121], JString [88])],
        reason = ''data''\<rparr>], [])"
  by code_simp

lemma example_spaces:
  "list_all isWhiteSpace ('' '' @ [] @ '' '' @ [] @ '' '' @ '' '' @ [])"
  \<open>CHR 0x22 \<notin> set ''web_search''\<close> \<open>CHR ''}'' \<notin> set ''"a": {"b": 1''\<close>
  by (simp_all add: isWhiteSpace_def)

lemma nested_example:
  "matches nestedText = []" "snd (parseToolRequests nestedText) = []"
  by code_simp+

lemma nested_then_reason_warns:
  \<open>parseToolRequests nestedThenReasonText =
     ([], [''Failed to parse tool request: TOOL_REQUEST: {"tool": "t", "parameters": {"a": {"b": 1}, "reason": "r"}''])\<close>
  by code_simp

lemma counted_map_of:
  "counted acc \<Longrightarrow> map_of acc k = Some v \<Longrightarrow> \<exists>n. v = Count n \<and> 0 < n"
proof -
  assume c: "counted acc" and m: "map_of acc k = Some v"
  from m have "(k, v) \<in> set acc" by (rule map_of_SomeD)
  with c have "case v of Count n \<Rightarrow> 0 < n | Text s \<Rightarrow> False"
    by (force simp: counted_def list_all_iff)
  then show ?thesis by (cases v) auto
qed

lemma counted_update:
  "counted acc \<Longrightarrow> 0 < n \<Longrightarrow> counted (AList.update k (Count n) acc)"
  by (induction acc) (auto simp: counted_def)

lemma countResponse_ordinary:
  assumes "counted acc" and "ordinary t"
  shows "counted (countResponse acc t)"
    and "tally (countResponse acc t) k = tally acc k + (if k = t then 1 else 0)"
proof -
  show "counted (countResponse acc t)"
  proof (cases "map_of acc t")
    case None
    with assms show ?thesis by (simp add: countResponse_def ordinary_def counted_update)
  next
    case (Some v)
    with counted_map_of [OF assms(1) Some] assms(1) show ?thesis
      by (auto simp: countResponse_def addOne_def counted_update)
  qed
  show "tally (countResponse acc t) k = tally acc k + (if k = t then 1 else 0)"
  proof (cases "map_of acc t")
    case None
    with assms show ?thesis
      by (simp add: countResponse_def ordinary_def tally_def update_conv')
  next
    case (Some v)
    with counted_map_of [OF assms(1) Some] show ?thesis
      by (auto simp: countResponse_def addOne_def tally_def update_conv')
  qed
qed

lemma foldl_countResponse_ordinary:
  assumes "counted acc" and "list_all ordinary ts"
  shows "counted (foldl countResponse acc ts)"
    and "tally (foldl countResponse acc ts) k = tally acc k + count_list ts k"
  using assms
proof (induction ts arbitrary: acc)
  case Nil
  { case 1 then show ?case by simp }
  { case 2 then show ?case by simp }
next
  case (Cons t ts)
  { case 1
    with Cons.IH(1) [of "countResponse acc t"] show ?case
      by (simp add: countResponse_ordinary) }
  { case 2
    with Cons.IH(2) [of "countResponse acc t"] show ?case
      by (auto simp: countResponse_ordinary) }
qed

lemma foldl_max_counts:
  assumes "\<forall>v \<in> set vs. \<exists>n. v = Count n"
  shows "foldl (\<lambda>m v. maxNumber m (toNumber v)) (Number a) vs
           = Number (Max (insert a (slotValue ` set vs)))"
  using assms
proof (induction vs arbitrary: a)
  case Nil
  then show ?case by simp
next
  case (Cons v vs)
  then obtain n where v: "v = Count n" by auto
  have "foldl (\<lambda>m v. maxNumber m (toNumber v)) (Number a) (v # vs)
          = foldl (\<lambda>m v. maxNumber m (toNumber v)) (Number (max a (real n))) vs"
    by (simp add: v toNumber_def)
  also have "\<dots> = Number (Max (insert (max a (real n)) (slotValue ` set vs)))"
    using Cons.prems by (intro Cons.IH) simp
  also have "Max (insert (max a (real n)) (slotValue ` set vs))
               = Max (insert a (slotValue ` set (v # vs)))"
    by (cases "slotValue ` set vs = {}") (auto simp: v slotValue_def max.assoc)
  finally show ?case .
qed

lemma Math_max_counts:
  assumes "\<forall>v \<in> set vs. \<exists>n. v = Count n" and "vs \<noteq> []"
  shows "Math_max vs = Number (Max (slotValue ` set vs))"
proof -
  from assms(2) obtain v vs' where vs: "vs = v # vs'" by (cases vs) auto
  with assms(1) obtain n where v: "v = Count n" by auto
  have "Math_max vs = foldl (\<lambda>m v. maxNumber m (toNumber v)) (Number (real n)) vs'"
    by (simp add: Math_max_def vs v toNumber_def)
  also have "\<dots> = Number (Max (insert (real n) (slotValue ` set vs')))"
    using assms(1) vs by (intro foldl_max_counts) simp
  finally show ?thesis by (simp add: vs v slotValue_def)
qed

lemma tally_keys:
  assumes "counted acc"
  shows "k \<in> fst ` set acc \<longleftrightarrow> 0 < tally acc k"
proof (cases "map_of acc k")
  case None
  then have "k \<notin> fst ` set acc" by (simp add: map_of_eq_None_iff)
  with None show ?thesis by (simp add: tally_def)
next
  case (Some v)
  with counted_map_of [OF assms Some] show ?thesis
    by (auto simp: tally_def dest: map_of_SomeD intro: rev_image_eqI)
qed

lemma tallied_entries:
  assumes "list_all ordinary ts"
  shows "set (foldl countResponse [] ts) = (\<lambda>t. (t, Count (count_list ts t))) ` set ts"
proof -
  let ?acc = "foldl countResponse [] ts"
  have c: "counted ?acc" and t: "\<And>k. tally ?acc k = count_list ts k"
    using foldl_countResponse_ordinary [of "[]" ts] assms by (simp_all add: counted_def tally_def)
  have d: "distinct (map fst ?acc)" by (rule foldl_countResponse_distinct) simp
  have keys: "fst ` set ?acc = set ts"
  proof (intro set_eqI)
    fix k
    have "k \<in> fst ` set ?acc \<longleftrightarrow> 0 < count_list ts k"
      using tally_keys [OF c, of k] t [of k] by simp
    also have "\<dots> \<longleftrightarrow> k \<in> set ts"
      using count_list_0_iff [of ts k] by auto
    finally show "k \<in> fst ` set ?acc \<longleftrightarrow> k \<in> set ts" .
  qed
  show ?thesis
  proof (intro set_eqI iffI)
    fix p assume p: "p \<in> set ?acc"
    obtain k v where kv: "p = (k, v)" by (cases p)
    with p d have m: "map_of ?acc k = Some v" by simp
    from counted_map_of [OF c m] obtain n where "v = Count n" by auto
    with m t [of k] have "v = Count (count_list ts k)" by (simp add: tally_def)
    moreover from p kv keys have "k \<in> set ts" by force
    ultimately show "p \<in> (\<lambda>t. (t, Count (count_list ts t))) ` set ts" using kv by auto
  next
    fix p assume "p \<in> (\<lambda>t. (t, Count (count_list ts t))) ` set ts"
    then obtain k where k: "k \<in> set ts" "p = (k, Count (count_list ts k))" by auto
    with keys obtain v where v: "(k, v) \<in> set ?acc" by force
    with d have m: "map_of ?acc k = Some v" by simp
    from counted_map_of [OF c m] obtain n where "v = Count n" by auto
    with m t [of k] have "v = Count (count_list ts k)" by (simp add: tally_def)
    with v k show "p \<in> set ?acc" by simp
  qed
qed

lemma tallied_max:
  assumes "list_all ordinary ts" and "ts \<noteq> []"
  shows "Math_max (objectValues (foldl countResponse [] ts))
           = Number (Max ((\<lambda>t. real (count_list ts t)) ` set ts))"
proof -
  let ?vs = "objectValues (foldl countResponse [] ts)"
  have s: "set ?vs = (\<lambda>t. Count (count_list ts t)) ` set ts"
    by (auto simp: objectValues_def set_objectEntries tallied_entries [OF assms(1)] image_image
          intro: rev_image_eqI)
  with assms(2) have ne: "?vs \<noteq> []" by auto
  from s have "\<forall>v \<in> set ?vs. \<exists>n. v = Count n" by auto
  from Math_max_counts [OF this ne] s show ?thesis
    by (simp add: image_image slotValue_def)
qed

lemma count_list_constant: "\<forall>y \<in> set ts. y = x \<Longrightarrow> count_list ts x = length ts"
  by (induction ts) auto

lemma checkConsensus_ordinary:
  assumes "list_all ordinary (map normalized rs)" and "t \<le> 1"
  shows "hasConsensus (checkConsensus rs t) \<longleftrightarrow>
           2 \<le> length rs \<and>
           t \<le> Max ((\<lambda>k. real (count_list (map normalized rs) k)) ` set (map normalized rs))
                 / real (length rs)"
proof (cases "length rs < 2")
  case True
  then show ?thesis by (simp add: checkConsensus_def)
next
  case False
  define ts where "ts = map normalized rs"
  from False have ne: "ts \<noteq> []" by (auto simp: ts_def)
  show ?thesis
  proof (cases "length (remdups ts) = 1")
    case True
    then have "card (set ts) = 1" by (simp add: length_remdups_card_conv)
    then obtain x where x: "set ts = {x}" by (metis card_1_singletonE)
    then have "count_list ts x = length ts" by (intro count_list_constant) auto
    moreover from False have "rs \<noteq> []" by auto
    ultimately have "t \<le> Max ((\<lambda>k. real (count_list ts k)) ` set ts) / real (length rs)"
      using x assms(2) by (simp add: ts_def)
    moreover have "hasConsensus (checkConsensus rs t)"
      using False True by (simp add: checkConsensus_def ts_def Let_def)
    ultimately show ?thesis using False by (simp add: ts_def)
  next
    case uneq: False
    have "hasConsensus (checkConsensus rs t) \<longleftrightarrow>
            greaterEq (divideBy (Math_max (objectValues (foldl countResponse [] ts))) (length rs)) t"
      using False uneq by (simp add: checkConsensus_def ts_def Let_def)
    also have "\<dots> \<longleftrightarrow> t \<le> Max ((\<lambda>k. real (count_list ts k)) ` set ts) / real (length rs)"
      using assms(1) ne by (simp add: tallied_max ts_def [symmetric] greaterEq_def divideBy_def)
    finally show ?thesis using False by (simp add: ts_def)
  qed
qed

lemma find_False [simp]: "find (\<lambda>x. False) xs = None"
  by (induction xs) auto

lemma strictEq_Count:
  "strictEq v (Number a) \<Longrightarrow> \<exists>n. v = Some (Count n) \<and> real n = a"
  by (auto simp: strictEq_def split: option.splits slot.splits)

lemma Max_real_count:
  assumes "ts \<noteq> []"
  shows "Max ((\<lambda>k. real (count_list ts k)) ` set ts) = real (Max (count_list ts ` set ts))"
proof -
  have "real (Max (count_list ts ` set ts)) = Max (real ` count_list ts ` set ts)"
    using assms by (intro mono_Max_commute) (auto simp: mono_def)
  then show ?thesis by (simp add: image_image)
qed

lemma checkConsensus_ordinary_text:
  assumes "list_all ordinary (map normalized rs)" and "hasConsensus (checkConsensus rs t)"
  shows "\<exists>key \<in> set (map normalized rs).
           count_list (map normalized rs) key
             = Max (count_list (map normalized rs) ` set (map normalized rs))
           \<and> consensusText (checkConsensus rs t)
               = map_option response (find (\<lambda>r. normalized r = key) rs)"
proof -
  define ts where "ts = map normalized rs"
  define acc where "acc = foldl countResponse [] ts"
  from assms(2) have len: "\<not> length rs < 2" by (auto simp: checkConsensus_def)
  then obtain r0 rest where rs: "rs = r0 # rest" by (cases rs) auto
  then have ne: "ts \<noteq> []" by (simp add: ts_def)
  show ?thesis
  proof (cases "length (remdups ts) = 1")
    case True
    then have "card (set ts) = 1" by (simp add: length_remdups_card_conv)
    then obtain x where x: "set ts = {x}" by (metis card_1_singletonE)
    then have c: "count_list ts x = length ts" by (intro count_list_constant) auto
    from x rs have n0: "normalized r0 = x" by (auto simp: ts_def)
    have "consensusText (checkConsensus rs t) = Some (response (hd rs))"
      using len True by (simp add: checkConsensus_def ts_def Let_def)
    with n0 rs have "consensusText (checkConsensus rs t)
        = map_option response (find (\<lambda>r. normalized r = x) rs)" by simp
    moreover from x c have "count_list ts x = Max (count_list ts ` set ts)" by simp
    moreover from x have "x \<in> set ts" by simp
    ultimately show ?thesis unfolding ts_def by blast
  next
    case False
    with assms(2) len have ge: "greaterEq (divideBy (Math_max (objectValues acc)) (length rs)) t"
      by (simp add: checkConsensus_def ts_def acc_def Let_def split: if_splits)
    have mx: "Math_max (objectValues acc) = Number (real (Max (count_list ts ` set ts)))"
      using assms(1) ne by (simp add: acc_def tallied_max ts_def [symmetric] Max_real_count)
    from checkConsensus_text [OF assms(2)] obtain r :: AdvisorResponse
      where "consensusText (checkConsensus rs t) = Some (response r)" by blast
    moreover have "consensusText (checkConsensus rs t) =
        map_option response
          (find (\<lambda>r. Some (normalized r) =
                   find (\<lambda>key. strictEq (map_of acc key) (Number (real (Max (count_list ts ` set ts)))))
                     (objectKeys acc)) rs)"
      using len False ge mx
      by (simp add: checkConsensus_def Let_def ts_def [symmetric] acc_def [symmetric])
    ultimately obtain key
      where key: "find (\<lambda>key. strictEq (map_of acc key) (Number (real (Max (count_list ts ` set ts)))))
                    (objectKeys acc) = Some key"
        and ct: "consensusText (checkConsensus rs t)
                   = map_option response (find (\<lambda>r. normalized r = key) rs)"
      by (cases "find (\<lambda>key. strictEq (map_of acc key) (Number (real (Max (count_list ts ` set ts)))))
                    (objectKeys acc)") (auto simp: find_None_iff)
    from find_Some_mem [OF key] obtain n
      where n: "map_of acc key = Some (Count n)" "real n = real (Max (count_list ts ` set ts))"
      by (blast dest: strictEq_Count)
    from n(1) have "(key, Count n) \<in> set acc" by (rule map_of_SomeD)
    then have "key \<in> set ts" "n = count_list ts key"
      using tallied_entries [OF assms(1) [folded ts_def]] by (auto simp: acc_def)
    with n(2) ct show ?thesis unfolding ts_def by auto
  qed
qed

lemma snd_run_prefix:
  "validateConsensusData input = Inr d \<Longrightarrow>
     prefix (ledger (roundLoop srv api d 1 [] None)) (snd (processConsensus srv api old input))"
  by (cases "roundLoop srv api d 1 [] None")
     (simp_all add: processConsensus_valid snd_summaryPass)

lemma reached_prefix:
  assumes "validateConsensusData input = Inr d" and "reaches srv api d r"
  shows "prefix (map (roundOf srv api) [1..<Suc r]) (snd (processConsensus srv api old input))"
proof -
  define H where "H = map (roundOf srv api) [1..<r]"
  from assms(2) have r: "1 \<le> r" "r \<le> maxRounds srv" "\<not> joinThrows (availableTools d)"
    by (simp_all add: reaches_def)
  have "prefix (H @ [roundOf srv api r]) (ledger (roundLoop srv api d r H None))"
    using r roundLoop_prefix [of "H @ [roundOf srv api r]" srv api d "r + 1"]
    by (subst roundLoop_step) simp
  moreover have "map (roundOf srv api) [1..<Suc r] = H @ [roundOf srv api r]"
    using r(1) by (simp add: H_def)
  ultimately have "prefix (map (roundOf srv api) [1..<Suc r]) (ledger (roundLoop srv api d 1 [] None))"
    using reaches_loop [OF assms(2)] by (simp add: H_def)
  with snd_run_prefix [OF assms(1), of srv api old] show ?thesis
    by (meson prefix_order.trans)
qed

lemma reached_round:
  assumes "validateConsensusData input = Inr d" and "reaches srv api d r"
  shows "r \<le> length (snd (processConsensus srv api old input))"
    and "snd (processConsensus srv api old input) ! (r - 1) = roundOf srv api r"
proof -
  from reached_prefix [OF assms, of old] obtain zs
    where zs: "snd (processConsensus srv api old input) = map (roundOf srv api) [1..<Suc r] @ zs"
    by (auto simp: prefix_def)
  from assms(2) have r: "1 \<le> r" by (simp add: reaches_def)
  from zs show "r \<le> length (snd (processConsensus srv api old input))" by simp
  have "(map (roundOf srv api) [1..<Suc r] @ zs) ! (r - 1) = map (roundOf srv api) [1..<Suc r] ! (r - 1)"
    using r by (intro nth_append_left) simp
  also have "\<dots> = roundOf srv api (1 + (r - 1))"
    using r by (subst nth_map) (simp_all del: upt_Suc)
  finally show "snd (processConsensus srv api old input) ! (r - 1) = roundOf srv api r"
    using r zs by simp
qed

lemma exit_after_round:
  assumes "validateConsensusData input = Inr d" and "reaches srv api d r"
  shows "hasConsensus (roundVerdict srv api r) \<longleftrightarrow>
           status (fst (processConsensus srv api old input)) = ''consensus_reached''
           \<and> length (snd (processConsensus srv api old input)) = Suc r"
proof
  assume h: "hasConsensus (roundVerdict srv api r)"
  from consensus_run [OF assms h, of old] roundVerdict_isSet [OF h]
  show "status (fst (processConsensus srv api old input)) = ''consensus_reached''
           \<and> length (snd (processConsensus srv api old input)) = Suc r"
    using assms(2) by (simp add: summaryPass_eq reaches_def)
next
  assume a: "status (fst (processConsensus srv api old input)) = ''consensus_reached''
           \<and> length (snd (processConsensus srv api old input)) = Suc r"
  show "hasConsensus (roundVerdict srv api r)"
  proof (cases "roundLoop srv api d 1 [] None")
    case (Leave h c)
    with assms(1) a have c: "isSet c" and len: "length h = r"
      by (auto simp: processConsensus_valid summaryPass_eq split: if_splits)
    from roundLoop_Leave [OF Leave c] obtain m
      where m: "1 \<le> m" "h = map (roundOf srv api) [1..<Suc m]" "hasConsensus (roundVerdict srv api m)"
      by auto
    from m(1,2) len have "m = r" by simp
    with m(3) show ?thesis by simp
  next
    case (Return p h)
    from roundLoop_Return [OF Return] Return assms(1) a show ?thesis
      by (auto simp: processConsensus_valid)
  next
    case (Throw e h)
    with assms(1) a show ?thesis by (simp add: processConsensus_valid)
  qed
qed

lemma unmatched_directives:
  assumes "list_all isWhiteSpace (w1 @ w2 @ w3 @ w4 @ w5 @ w6 @ w7)"
    and \<open>CHR 0x22 \<notin> set t\<close> and \<open>CHR ''}'' \<notin> set a\<close>
    and "occ \<in> set (unmatchedDirectives [w1, w2, w3, w4, w5, w6, w7] t a rest)"
  shows "matchHere toolRegex occ = None"
  using assms empty_object_unmatched [of w1 w2 w3 w4 w5 w6 t rest]
    wrong_first_key_unmatched [of w1 w2 rest]
    wrong_second_key_unmatched [of w1 w2 w3 w4 w5 t rest]
    nested_object_unmatched [of w1 w2 w3 w4 w5 w6 w7 t a rest]
  by auto

lemma agreeing_texts:
  "consensusText (roundVerdict panel agreeingProvider 1) = Some (''Adopt X. '' @ directiveText)"
  "consensusText (roundVerdict_v1 (advisors panel) agreeingProvider exampleData_v1 1)
     = Some (''Adopt X. '' @ directiveText)"
  by code_simp+

lemma one_failing_reaches: "reaches strictPanel oneFailingProvider exampleData 1"
  by (simp add: reaches_def strictPanel_def exampleData_def joinThrows_def)

lemma throwing_valid:
  "validateConsensusData throwingInput =
     Inr \<lparr>problem = ''Adopt policy X?'', availableTools = [JSObject [(''toString'', JSNumber 1)]]\<rparr>"
  "validateConsensusData_v1 throwingInput =
     Inr (ConsensusData_v1 ''Adopt policy X?'' [JSObject [(''toString'', JSNumber 1)]] 5 (4 / 5))"
  "joinThrows [JSObject [(''toString'', JSNumber 1)]]"
  by code_simp+

lemma throwing_example:
  "processConsensus panel agreeingProvider old throwingInput = (Failed TypeError ''failed'', [])"
  "processConsensus_v1 (advisors panel) agreeingProvider old throwingInput
     = (Failed TypeError ''failed'', [])"
  using throwing_run [OF throwing_valid(1), of panel agreeingProvider old]
    throwing_run_v1 [OF throwing_valid(2), of "advisors panel" agreeingProvider old]
    throwing_valid(3)
  by (simp_all add: panel_def)

section \<open>The reply that asks for tools\<close>

text \<open>
  C1, as amended. When the run executes a round that carries tool requests and reaches
  no consensus, \<open>processConsensus\<close> returns at once. The reply has the status
  \<open>tool_requests_needed\<close> (the claim's \<open>awaiting_information\<close> is not a status of
  the code), the number of the round, the requests of the round, the summary of the
  ledger and the fixed guidance string. The ledger left behind holds the rounds \<open>1\<close>
  to \<open>r\<close> and nothing else: no summary round was produced. Both files behave so.
  A run whose first prompt cannot be built executes no round (lemma \<open>throwing_run\<close>).
\<close>

theorem tool_requests_needed_reply:
  "(validateConsensusData input = Inr d \<and> reaches srv api d r
      \<and> \<not> hasConsensus (roundVerdict srv api r) \<and> roundRequests srv api r \<noteq> []
    \<longrightarrow> processConsensus srv api old input =
          (ToolRequestsNeeded ''tool_requests_needed'' r (roundRequests srv api r)
             (generateDiscussionSummary (map (roundOf srv api) [1..<Suc r]))
             ''Please execute the requested tools and continue the consensus process'',
           map (roundOf srv api) [1..<Suc r]))
   \<and> (validateConsensusData_v1 input = Inr v \<and> reaches_v1 as api v r
      \<and> \<not> hasConsensus (roundVerdict_v1 as api v r) \<and> roundRequests_v1 as api r \<noteq> []
    \<longrightarrow> processConsensus_v1 as api old input =
          (ToolRequestsNeeded ''tool_requests_needed'' r (roundRequests_v1 as api r)
             (generateDiscussionSummary (map (roundOf_v1 as api v) [1..<Suc r]))
             ''Please execute the requested tools and continue the consensus process'',
           map (roundOf_v1 as api v) [1..<Suc r]))"
  using tool_requests_run [of input d srv api r old]
    tool_requests_run_v1 [of input v as api r old]
  by blast

theorem tool_requests_needed_reply_witness:
  "status (fst (processConsensus panel askingProvider [] exampleInput)) = ''tool_requests_needed''
   \<and> roundReached (fst (processConsensus panel askingProvider [] exampleInput)) = 1
   \<and> length (snd (processConsensus panel askingProvider [] exampleInput)) = 1
   \<and> status (fst (processConsensus_v1 (advisors panel) askingProvider [] exampleInput))
       = ''tool_requests_needed''"
  using tool_requests_needed_reply
          [of exampleInput exampleData panel askingProvider 1 "[]" exampleData_v1 "advisors panel"]
    example_valid example_valid_v1 asking_facts asking_facts_v1
  by simp

text \<open>
  The claim as stated fails on the example run: round 1 carries requests and reaches no
  consensus, and the status of the reply is not \<open>awaiting_information\<close>.
\<close>

theorem awaiting_information_counterexample:
  "validateConsensusData exampleInput = Inr exampleData
   \<and> reaches panel askingProvider exampleData 1
   \<and> roundRequests panel askingProvider 1 \<noteq> []
   \<and> \<not> hasConsensus (roundVerdict panel askingProvider 1)
   \<and> status (fst (processConsensus panel askingProvider [] exampleInput)) \<noteq> ''awaiting_information''
   \<and> status (fst (processConsensus_v1 (advisors panel) askingProvider [] exampleInput))
       \<noteq> ''awaiting_information''"
  using tool_requests_run [OF example_valid asking_facts, of "[]"]
    tool_requests_run_v1 [OF example_valid_v1 asking_facts_v1, of "[]"] asking_facts example_valid
  by simp

section \<open>Failure markers in the agreement count\<close>

text \<open>
  C2, as amended. The evaluator does not exclude failure markers. Round \<open>r\<close> of the
  ledger of a run that executes it holds one response for each advisor, the marker
  \<open>Error querying advisor: ...\<close> standing for each advisor whose request was
  rejected, and the consensus recorded for the round is what \<open>checkConsensus\<close> makes
  of exactly these responses. The run ends with \<open>consensus_reached\<close> right behind
  round \<open>r\<close> if and only if that call finds consensus; for ordinary texts, that is if
  and only if the largest count of a normalized text, markers counted like any other
  text, divided by the number of advisors, reaches the threshold. Identical markers
  agree: when every advisor of a panel of two or more fails with the same message, the
  run ends with \<open>consensus_reached\<close> and the marker as its consensus.
\<close>

theorem failure_markers_counted:
  "validateConsensusData input = Inr d \<and> reaches srv api d r
     \<and> rd = snd (processConsensus srv api old input) ! (r - 1)
   \<longrightarrow> r \<le> length (snd (processConsensus srv api old input))
     \<and> roundNo rd = r
     \<and> map advisorId (responses rd) = map idOf (advisors srv)
     \<and> (\<forall>k e. k < length (advisors srv) \<and> api r (advisors srv ! k) = Rejected e
          \<longrightarrow> response (responses rd ! k) = ''Error querying advisor: '' @ e)
     \<and> consensus rd = consensusText (checkConsensus (responses rd) (consensusThreshold srv))
     \<and> (hasConsensus (checkConsensus (responses rd) (consensusThreshold srv))
          \<longleftrightarrow> status (fst (processConsensus srv api old input)) = ''consensus_reached''
             \<and> length (snd (processConsensus srv api old input)) = Suc r)
     \<and> (list_all ordinary (map normalized (responses rd)) \<and> consensusThreshold srv \<le> 1
          \<longrightarrow> (status (fst (processConsensus srv api old input)) = ''consensus_reached''
               \<and> length (snd (processConsensus srv api old input)) = Suc r
               \<longleftrightarrow> 2 \<le> length (advisors srv)
                 \<and> consensusThreshold srv
                     \<le> Max ((\<lambda>k. real (count_list (map normalized (responses rd)) k))
                              ` set (map normalized (responses rd)))
                         / real (length (advisors srv))))
     \<and> (2 \<le> length (advisors srv) \<and> (\<forall>a \<in> set (advisors srv). api r a = Rejected e)
          \<longrightarrow> status (fst (processConsensus srv api old input)) = ''consensus_reached''
            \<and> finalConsensus (fst (processConsensus srv api old input))
                = ''Error querying advisor: '' @ e
            \<and> length (snd (processConsensus srv api old input)) = Suc r)"
proof (intro impI, elim conjE)
  assume v: "validateConsensusData input = Inr d" and re: "reaches srv api d r"
    and "rd = snd (processConsensus srv api old input) ! (r - 1)"
  with reached_round [OF v re, of old]
  have len: "r \<le> length (snd (processConsensus srv api old input))"
    and rd: "rd = roundOf srv api r"
    by simp_all
  have rs: "responses rd = roundResponses srv api r"
    by (simp add: rd roundResponses_map)
  have size: "length (responses rd) = length (advisors srv)"
    by (simp add: rd)
  have verdict: "checkConsensus (responses rd) (consensusThreshold srv) = roundVerdict srv api r"
    by (simp add: rs roundVerdict_def)
  have no: "roundNo rd = r" by (simp add: rd)
  have ids: "map advisorId (responses rd) = map idOf (advisors srv)" by (simp add: rd)
  have cons: "consensus rd = consensusText (checkConsensus (responses rd) (consensusThreshold srv))"
    unfolding verdict by (simp add: rd roundOf_def)
  have exit: "hasConsensus (checkConsensus (responses rd) (consensusThreshold srv))
          \<longleftrightarrow> status (fst (processConsensus srv api old input)) = ''consensus_reached''
             \<and> length (snd (processConsensus srv api old input)) = Suc r"
    unfolding verdict by (rule exit_after_round [OF v re])
  have markers: "\<forall>k e. k < length (advisors srv) \<and> api r (advisors srv ! k) = Rejected e
          \<longrightarrow> response (responses rd ! k) = ''Error querying advisor: '' @ e"
    by (simp add: rd response_rejected)
  have ratio: "list_all ordinary (map normalized (responses rd)) \<and> consensusThreshold srv \<le> 1
          \<longrightarrow> (status (fst (processConsensus srv api old input)) = ''consensus_reached''
               \<and> length (snd (processConsensus srv api old input)) = Suc r
               \<longleftrightarrow> 2 \<le> length (advisors srv)
                 \<and> consensusThreshold srv
                     \<le> Max ((\<lambda>k. real (count_list (map normalized (responses rd)) k))
                              ` set (map normalized (responses rd)))
                         / real (length (advisors srv)))"
  proof (intro impI, elim conjE)
    assume "list_all ordinary (map normalized (responses rd))" "consensusThreshold srv \<le> 1"
    from checkConsensus_ordinary [OF this]
    show "status (fst (processConsensus srv api old input)) = ''consensus_reached''
               \<and> length (snd (processConsensus srv api old input)) = Suc r
               \<longleftrightarrow> 2 \<le> length (advisors srv)
                 \<and> consensusThreshold srv
                     \<le> Max ((\<lambda>k. real (count_list (map normalized (responses rd)) k))
                              ` set (map normalized (responses rd)))
                         / real (length (advisors srv))"
      unfolding exit size .
  qed
  have failed: "2 \<le> length (advisors srv) \<and> (\<forall>a \<in> set (advisors srv). api r a = Rejected e)
          \<longrightarrow> status (fst (processConsensus srv api old input)) = ''consensus_reached''
            \<and> finalConsensus (fst (processConsensus srv api old input))
                = ''Error querying advisor: '' @ e
            \<and> length (snd (processConsensus srv api old input)) = Suc r"
  proof (intro impI, elim conjE)
    assume a: "2 \<le> length (advisors srv)" "\<forall>a \<in> set (advisors srv). api r a = Rejected e"
    note av = all_rejected_verdict [of srv api r e, OF a]
    then have h: "hasConsensus (roundVerdict srv api r)" by simp
    from consensus_run [OF v re h, of old] av re
    show "status (fst (processConsensus srv api old input)) = ''consensus_reached''
            \<and> finalConsensus (fst (processConsensus srv api old input))
                = ''Error querying advisor: '' @ e
            \<and> length (snd (processConsensus srv api old input)) = Suc r"
      by (simp add: summaryPass_eq isSet_def reaches_def)
  qed
  from len no ids markers cons exit ratio failed
  show "r \<le> length (snd (processConsensus srv api old input))
     \<and> roundNo rd = r
     \<and> map advisorId (responses rd) = map idOf (advisors srv)
     \<and> (\<forall>k e. k < length (advisors srv) \<and> api r (advisors srv ! k) = Rejected e
          \<longrightarrow> response (responses rd ! k) = ''Error querying advisor: '' @ e)
     \<and> consensus rd = consensusText (checkConsensus (responses rd) (consensusThreshold srv))
     \<and> (hasConsensus (checkConsensus (responses rd) (consensusThreshold srv))
          \<longleftrightarrow> status (fst (processConsensus srv api old input)) = ''consensus_reached''
             \<and> length (snd (processConsensus srv api old input)) = Suc r)
     \<and> (list_all ordinary (map normalized (responses rd)) \<and> consensusThreshold srv \<le> 1
          \<longrightarrow> (status (fst (processConsensus srv api old input)) = ''consensus_reached''
               \<and> length (snd (processConsensus srv api old input)) = Suc r
               \<longleftrightarrow> 2 \<le> length (advisors srv)
                 \<and> consensusThreshold srv
                     \<le> Max ((\<lambda>k. real (count_list (map normalized (responses rd)) k))
                              ` set (map normalized (responses rd)))
                         / real (length (advisors srv))))
     \<and> (2 \<le> length (advisors srv) \<and> (\<forall>a \<in> set (advisors srv). api r a = Rejected e)
          \<longrightarrow> status (fst (processConsensus srv api old input)) = ''consensus_reached''
            \<and> finalConsensus (fst (processConsensus srv api old input))
                = ''Error querying advisor: '' @ e
            \<and> length (snd (processConsensus srv api old input)) = Suc r)"
    by (intro conjI)
qed

theorem failure_markers_counted_witness:
  "status (fst (processConsensus panel failingProvider [] exampleInput)) = ''consensus_reached''
   \<and> finalConsensus (fst (processConsensus panel failingProvider [] exampleInput))
       = ''Error querying advisor: timeout''
   \<and> response (responses (snd (processConsensus strictPanel oneFailingProvider [] exampleInput) ! 0) ! 0)
       = ''Error querying advisor: timeout''
   \<and> \<not> hasConsensus
         (checkConsensus
            (responses (snd (processConsensus strictPanel oneFailingProvider [] exampleInput) ! 0))
            (consensusThreshold strictPanel))"
proof -
  from failure_markers_counted
         [of exampleInput exampleData panel failingProvider 1
             "snd (processConsensus panel failingProvider [] exampleInput) ! 0" "[]" "''timeout''"]
       example_valid failing_reaches failing_all panel_size
  have "status (fst (processConsensus panel failingProvider [] exampleInput)) = ''consensus_reached''"
    and "finalConsensus (fst (processConsensus panel failingProvider [] exampleInput))
       = ''Error querying advisor: '' @ ''timeout''"
    by simp_all
  moreover
  note one =
    failure_markers_counted
      [of exampleInput exampleData strictPanel oneFailingProvider 1
          "snd (processConsensus strictPanel oneFailingProvider [] exampleInput) ! 0" "[]"]
  from one one_failing_reaches example_valid one_failing_first(1,2)
  have "response (responses (snd (processConsensus strictPanel oneFailingProvider [] exampleInput) ! 0) ! 0)
       = ''Error querying advisor: '' @ ''timeout''"
    by simp
  moreover
  from one one_failing_reaches example_valid one_failing_run(4)
  have "\<not> hasConsensus
         (checkConsensus
            (responses (snd (processConsensus strictPanel oneFailingProvider [] exampleInput) ! 0))
            (consensusThreshold strictPanel))"
    by simp
  ultimately show ?thesis by simp
qed

text \<open>
  The claim as stated fails: five identical markers produce consensus and end the run
  with \<open>consensus_reached\<close>; and with one marker and four equal answers the ratio is
  4/5, below a threshold of 9/10, where the four answers alone would agree.
\<close>

theorem failure_markers_counterexample:
  "hasConsensus (roundVerdict panel failingProvider 1)
   \<and> consensusText (roundVerdict panel failingProvider 1) = Some ''Error querying advisor: timeout''
   \<and> status (fst (processConsensus panel failingProvider [] exampleInput)) = ''consensus_reached''
   \<and> \<not> hasConsensus (roundVerdict strictPanel oneFailingProvider 1)
   \<and> hasConsensus
       (checkConsensus
          (filter (\<lambda>r. response r \<noteq> ''Error querying advisor: timeout'')
             (roundResponses strictPanel oneFailingProvider 1))
          (consensusThreshold strictPanel))"
proof -
  note v = all_rejected_verdict [of panel failingProvider 1 "''timeout''", OF panel_size failing_all]
  then have h: "hasConsensus (roundVerdict panel failingProvider 1)" by simp
  from consensus_run [OF example_valid failing_reaches h, of "[]"] roundVerdict_isSet [OF h]
  have "status (fst (processConsensus panel failingProvider [] exampleInput)) = ''consensus_reached''"
    by (simp add: status_summaryPass)
  with v one_failing_verdicts show ?thesis by simp
qed

section \<open>An empty capability list\<close>

text \<open>
  C3, as amended. Validation accepts an empty \<open>availableTools\<close> array. It succeeds
  exactly when \<open>problem\<close> is a non-empty string and \<open>availableTools\<close> is an array,
  empty or not; the run then does not end with the status \<open>failed\<close>. The variant of
  src/index.ts asks in addition for a round limit of at least 1 and a threshold that is
  not zero and lies in the unit interval, and accepts the empty array too.
\<close>

theorem empty_capability_list_accepted:
  "(validateConsensusData input = Inr d \<longleftrightarrow>
      getProperty input ''problem'' = Inr (JSString (problem d)) \<and> problem d \<noteq> []
      \<and> getProperty input ''availableTools'' = Inr (JSArray (availableTools d)))
   \<and> (getProperty input ''problem'' = Inr (JSString p) \<and> p \<noteq> []
      \<and> getProperty input ''availableTools'' = Inr (JSArray [])
    \<longrightarrow> validateConsensusData input = Inr \<lparr>problem = p, availableTools = []\<rparr>
        \<and> status (fst (processConsensus srv api old input)) \<noteq> ''failed'')
   \<and> (getProperty input ''problem'' = Inr (JSString p) \<and> p \<noteq> []
      \<and> getProperty input ''availableTools'' = Inr (JSArray [])
      \<and> getProperty input ''maxRounds'' = Inr (JSNumber m) \<and> 1 \<le> m
      \<and> getProperty input ''consensusThreshold'' = Inr (JSNumber t) \<and> 0 < t \<and> t \<le> 1
    \<longrightarrow> validateConsensusData_v1 input = Inr (ConsensusData_v1 p [] m t))"
proof (intro conjI impI)
  show "validateConsensusData input = Inr d \<longleftrightarrow>
      getProperty input ''problem'' = Inr (JSString (problem d)) \<and> problem d \<noteq> []
      \<and> getProperty input ''availableTools'' = Inr (JSArray (availableTools d))"
    by (rule validateConsensusData_iff)
next
  assume a: "getProperty input ''problem'' = Inr (JSString p) \<and> p \<noteq> []
      \<and> getProperty input ''availableTools'' = Inr (JSArray [])"
  then show v: "validateConsensusData input = Inr \<lparr>problem = p, availableTools = []\<rparr>"
    by (simp add: validateConsensusData_iff)
  then show "status (fst (processConsensus srv api old input)) \<noteq> ''failed''"
    by (rule valid_run_status) (simp add: joinThrows_def)
next
  assume a: "getProperty input ''problem'' = Inr (JSString p) \<and> p \<noteq> []
      \<and> getProperty input ''availableTools'' = Inr (JSArray [])
      \<and> getProperty input ''maxRounds'' = Inr (JSNumber m) \<and> 1 \<le> m
      \<and> getProperty input ''consensusThreshold'' = Inr (JSNumber t) \<and> 0 < t \<and> t \<le> 1"
  then have "validateConsensusData input = Inr \<lparr>problem = p, availableTools = []\<rparr>"
    by (simp add: validateConsensusData_iff)
  with a show "validateConsensusData_v1 input = Inr (ConsensusData_v1 p [] m t)"
    by (simp add: validateConsensusData_v1_def)
qed

theorem empty_capability_list_accepted_witness:
  "validateConsensusData emptyToolsInput =
     Inr \<lparr>problem = ''Adopt policy X?'', availableTools = []\<rparr>
   \<and> status (fst (processConsensus panel agreeingProvider [] emptyToolsInput)) \<noteq> ''failed''
   \<and> validateConsensusData_v1 emptyToolsInput =
       Inr (ConsensusData_v1 ''Adopt policy X?'' [] 5 (4 / 5))"
  using empty_capability_list_accepted
          [of emptyToolsInput "\<lparr>problem = ''Adopt policy X?'', availableTools = []\<rparr>"
              "''Adopt policy X?''" panel agreeingProvider "[]" 5 "4 / 5"]
    emptyTools_props
  by simp

text \<open>
  The claim as stated fails: the input with an empty \<open>availableTools\<close> array passes
  validation in both files and the run does not fail.
\<close>

theorem empty_capability_list_counterexample:
  "getProperty emptyToolsInput ''availableTools'' = Inr (JSArray [])
   \<and> validateConsensusData emptyToolsInput =
       Inr \<lparr>problem = ''Adopt policy X?'', availableTools = []\<rparr>
   \<and> validateConsensusData_v1 emptyToolsInput =
       Inr (ConsensusData_v1 ''Adopt policy X?'' [] 5 (4 / 5))
   \<and> status (fst (processConsensus panel agreeingProvider [] emptyToolsInput)) \<noteq> ''failed''"
proof -
  have v: "validateConsensusData emptyToolsInput =
       Inr \<lparr>problem = ''Adopt policy X?'', availableTools = []\<rparr>"
    using emptyTools_props by (simp add: validateConsensusData_iff)
  moreover have "validateConsensusData_v1 emptyToolsInput =
       Inr (ConsensusData_v1 ''Adopt policy X?'' [] 5 (4 / 5))"
    using v emptyTools_props by (simp add: validateConsensusData_v1_def)
  moreover have "status (fst (processConsensus panel agreeingProvider [] emptyToolsInput)) \<noteq> ''failed''"
    using v by (rule valid_run_status) (simp add: joinThrows_def)
  ultimately show ?thesis using emptyTools_props(2) by simp
qed

section \<open>One response for each advisor\<close>

text \<open>
  C4. Every round in the ledger of a run that passed validation, the summary round
  included, holds one response for each configured advisor, in the order of the
  advisors and under the advisor's own id. Where the request of an advisor was
  rejected, its response is the marker that carries the message of the error, and the
  run does not end with the status \<open>failed\<close>.
\<close>

theorem one_response_per_advisor:
  "validateConsensusData input = Inr d \<and> rd \<in> set (snd (processConsensus srv api old input))
   \<longrightarrow> map advisorId (responses rd) = map idOf (advisors srv)
     \<and> (\<forall>k e. k < length (advisors srv) \<and> api (roundNo rd) (advisors srv ! k) = Rejected e
          \<longrightarrow> response (responses rd ! k) = ''Error querying advisor: '' @ e
            \<or> response (responses rd ! k) = ''Error generating summary: '' @ e)
     \<and> status (fst (processConsensus srv api old input)) \<noteq> ''failed''"
proof (intro impI, elim conjE)
  assume v: "validateConsensusData input = Inr d"
    and rd: "rd \<in> set (snd (processConsensus srv api old input))"
  from rd have "snd (processConsensus srv api old input) \<noteq> []" by auto
  note ok = valid_run_rounds [OF v this]
  from run_round_cases [OF v rd]
  show "map advisorId (responses rd) = map idOf (advisors srv)
     \<and> (\<forall>k e. k < length (advisors srv) \<and> api (roundNo rd) (advisors srv ! k) = Rejected e
          \<longrightarrow> response (responses rd ! k) = ''Error querying advisor: '' @ e
            \<or> response (responses rd ! k) = ''Error generating summary: '' @ e)
     \<and> status (fst (processConsensus srv api old input)) \<noteq> ''failed''"
  proof
    assume eq: "rd = roundOf srv api (roundNo rd)"
    have "map advisorId (responses rd) = map idOf (advisors srv)"
      by (subst eq) simp
    moreover have "response (responses rd ! k) = ''Error querying advisor: '' @ e"
      if "k < length (advisors srv)" "api (roundNo rd) (advisors srv ! k) = Rejected e" for k e
      using that by (subst eq) (simp add: response_rejected)
    ultimately show ?thesis using ok by blast
  next
    assume eq: "responses rd = map (summaryResponse api (roundNo rd)) (advisors srv)"
    have "map advisorId (responses rd) = map idOf (advisors srv)"
      by (simp add: eq summaryResponse_def)
    moreover have "response (responses rd ! k) = ''Error generating summary: '' @ e"
      if "k < length (advisors srv)" "api (roundNo rd) (advisors srv ! k) = Rejected e" for k e
      using that by (simp add: eq summary_rejected)
    ultimately show ?thesis using ok by blast
  qed
qed

theorem one_response_per_advisor_witness:
  "map advisorId
     (responses (firstRound (processConsensus strictPanel oneFailingProvider [] exampleInput)))
     = [''advisor_alpha'', ''advisor_beta'', ''advisor_gamma'', ''advisor_delta'', ''advisor_epsilon'']
   \<and> response
       (responses (firstRound (processConsensus strictPanel oneFailingProvider [] exampleInput)) ! 0)
       = ''Error querying advisor: timeout''
   \<and> status (fst (processConsensus strictPanel oneFailingProvider [] exampleInput)) \<noteq> ''failed''
   \<and> length (snd (processConsensus strictPanel oneFailingProvider [] exampleInput)) = 3"
  using one_response_per_advisor
          [of exampleInput exampleData
              "firstRound (processConsensus strictPanel oneFailingProvider [] exampleInput)"
              strictPanel oneFailingProvider "[]"]
    example_valid one_failing_run one_failing_first
  by auto

section \<open>The agreement ratio\<close>

text \<open>
  C5. The claim is what the evaluator is written to do, and the code misses a case.
  \<open>agreementCounts\<close> is a plain object, so a normalized text that is \<open>__proto__\<close>
  is never stored in it and its occurrences are lost, and the count of a text that is
  \<open>constructor\<close> becomes a string, which turns the maximum into \<open>NaN\<close>. With two
  of three responses equal to \<open>__proto__\<close> (or to \<open>constructor\<close>) and a threshold
  of 1/2 the ratio of the claim is 2/3, and the code reports no consensus; with an
  ordinary text in their place it reports consensus. For response lists whose
  normalized texts are all ordinary the claim holds as stated
  (lemma \<open>checkConsensus_ordinary\<close>).
\<close>

theorem inherited_key_breaks_ratio:
  "count_list (map normalized (map answer [''__proto__'', ''__proto__'', ''x''])) ''__proto__'' = 2
   \<and> checkConsensus (map answer [''__proto__'', ''__proto__'', ''x'']) (1 / 2)
       = \<lparr>hasConsensus = False, consensusText = None\<rparr>
   \<and> count_list (map normalized (map answer [''constructor'', ''Constructor '', ''x'']))
         ''constructor'' = 2
   \<and> checkConsensus (map answer [''constructor'', ''Constructor '', ''x'']) (1 / 2)
       = \<lparr>hasConsensus = False, consensusText = None\<rparr>
   \<and> checkConsensus (map answer [''y'', ''Y '', ''x'']) (1 / 2)
       = \<lparr>hasConsensus = True, consensusText = Some ''y''\<rparr>"
  by code_simp

section \<open>The consensus text\<close>

text \<open>
  C6. The same slip of the code breaks this claim: with three responses \<open>__proto__\<close>,
  one \<open>X\<close> and one \<open>y\<close> and a threshold of 1/5, the text that occurs most often is
  \<open>__proto__\<close>, and the code declares consensus on \<open>X\<close>, whose normalized form
  occurs once. For response lists whose normalized texts are all ordinary the claim
  holds as stated (lemma \<open>checkConsensus_ordinary_text\<close>): the text returned is the
  original text of the first response whose normalized form is a text of maximal count.
\<close>

theorem inherited_key_loses_majority:
  "count_list (map normalized (map answer [''__proto__'', ''__proto__'', ''__proto__'', ''X'', ''y'']))
     ''__proto__'' = 3
   \<and> count_list (map normalized (map answer [''__proto__'', ''__proto__'', ''__proto__'', ''X'', ''y'']))
       ''x'' = 1
   \<and> checkConsensus (map answer [''__proto__'', ''__proto__'', ''__proto__'', ''X'', ''y'']) (1 / 5)
       = \<lparr>hasConsensus = True, consensusText = Some ''X''\<rparr>"
  by code_simp

section \<open>Consensus before directives\<close>

text \<open>
  C7. In a round that the run executes, where the evaluator finds consensus on the
  responses of the round and the round also carries tool requests, consensus wins: the
  test of \<open>hasConsensus\<close> comes before the test of the request list and the loop is
  left. The reply is the whole reply of a run that ends in consensus: the status
  \<open>consensus_reached\<close>, the consensus text of that round, which is not empty, and
  the ledger of the rounds \<open>1\<close> to \<open>r\<close> (followed by the summary round where the
  file has one). Conversely a reply that asks for tools names a round whose own
  responses reached no consensus, and lists the requests of that round. Both files
  behave so.
\<close>

theorem consensus_precedes_directives:
  "(validateConsensusData input = Inr d \<and> reaches srv api d r
      \<and> hasConsensus (roundVerdict srv api r) \<and> roundRequests srv api r \<noteq> []
    \<longrightarrow> (\<exists>t. consensusText (roundVerdict srv api r) = Some t \<and> t \<noteq> []
          \<and> processConsensus srv api old input =
              (Completed ''consensus_reached'' t (Suc r)
                 (map (roundOf srv api) [1..<Suc r]
                    @ [summaryRound srv api (map (roundOf srv api) [1..<Suc r]) (Some t)])
                 (map (\<lambda>a. (idOf a, response (summaryResponse api (Suc r) a))) (advisors srv))
                 ''If the consensus includes source code or requests a code artifact, please provide the full source code in your final answer (do not truncate).'',
               map (roundOf srv api) [1..<Suc r]
                 @ [summaryRound srv api (map (roundOf srv api) [1..<Suc r]) (Some t)])))
   \<and> (validateConsensusData_v1 input = Inr v \<and> reaches_v1 as api v r
      \<and> hasConsensus (roundVerdict_v1 as api v r) \<and> roundRequests_v1 as api r \<noteq> []
    \<longrightarrow> (\<exists>t. consensusText (roundVerdict_v1 as api v r) = Some t \<and> t \<noteq> []
          \<and> processConsensus_v1 as api old input =
              (Concluded ''consensus_reached'' t r (map (roundOf_v1 as api v) [1..<Suc r]),
               map (roundOf_v1 as api v) [1..<Suc r])))
   \<and> (fst (processConsensus srv api old input) = ToolRequestsNeeded s n q y a
    \<longrightarrow> \<not> hasConsensus (roundVerdict srv api n) \<and> q = roundRequests srv api n \<and> q \<noteq> [])
   \<and> (validateConsensusData_v1 input = Inr v
      \<and> fst (processConsensus_v1 as api old input) = ToolRequestsNeeded s n q y a
    \<longrightarrow> \<not> hasConsensus (roundVerdict_v1 as api v n) \<and> q = roundRequests_v1 as api n \<and> q \<noteq> [])"
proof (intro conjI impI)
  assume a: "validateConsensusData input = Inr d \<and> reaches srv api d r
      \<and> hasConsensus (roundVerdict srv api r) \<and> roundRequests srv api r \<noteq> []"
  then have set: "isSet (consensusText (roundVerdict srv api r))"
    by (simp add: roundVerdict_isSet)
  then obtain t where t: "consensusText (roundVerdict srv api r) = Some t" "t \<noteq> []"
    by (auto simp: isSet_def split: option.splits)
  from a consensus_run [of input d srv api r old] have "processConsensus srv api old input =
      summaryPass srv api (map (roundOf srv api) [1..<Suc r]) (consensusText (roundVerdict srv api r))"
    by simp
  with t show "\<exists>t. consensusText (roundVerdict srv api r) = Some t \<and> t \<noteq> []
          \<and> processConsensus srv api old input =
              (Completed ''consensus_reached'' t (Suc r)
                 (map (roundOf srv api) [1..<Suc r]
                    @ [summaryRound srv api (map (roundOf srv api) [1..<Suc r]) (Some t)])
                 (map (\<lambda>a. (idOf a, response (summaryResponse api (Suc r) a))) (advisors srv))
                 ''If the consensus includes source code or requests a code artifact, please provide the full source code in your final answer (do not truncate).'',
               map (roundOf srv api) [1..<Suc r]
                 @ [summaryRound srv api (map (roundOf srv api) [1..<Suc r]) (Some t)])"
    by (simp add: summaryPass_eq isSet_def del: upt_Suc)
next
  assume a: "validateConsensusData_v1 input = Inr v \<and> reaches_v1 as api v r
      \<and> hasConsensus (roundVerdict_v1 as api v r) \<and> roundRequests_v1 as api r \<noteq> []"
  then have "isSet (consensusText (roundVerdict_v1 as api v r))"
    by (simp add: roundVerdict_v1_isSet)
  then obtain t where t: "consensusText (roundVerdict_v1 as api v r) = Some t" "t \<noteq> []"
    by (auto simp: isSet_def split: option.splits)
  from a consensus_run_v1 [of input v as api r old] have "processConsensus_v1 as api old input =
           (Concluded ''consensus_reached'' (the (consensusText (roundVerdict_v1 as api v r))) r
              (map (roundOf_v1 as api v) [1..<Suc r]),
            map (roundOf_v1 as api v) [1..<Suc r])"
    by simp
  with t show "\<exists>t. consensusText (roundVerdict_v1 as api v r) = Some t \<and> t \<noteq> []
          \<and> processConsensus_v1 as api old input =
              (Concluded ''consensus_reached'' t r (map (roundOf_v1 as api v) [1..<Suc r]),
               map (roundOf_v1 as api v) [1..<Suc r])"
    by simp
qed (use exit_without_consensus [of srv api old input s n q y a]
         exit_without_consensus_v1 [of input v as api old s n q y a] in blast)+

theorem consensus_precedes_directives_witness:
  "status (fst (processConsensus panel agreeingProvider [] exampleInput)) = ''consensus_reached''
   \<and> finalConsensus (fst (processConsensus panel agreeingProvider [] exampleInput))
       = ''Adopt X. '' @ directiveText
   \<and> length (snd (processConsensus panel agreeingProvider [] exampleInput)) = 2
   \<and> roundRequests panel agreeingProvider 1 \<noteq> []
   \<and> status (fst (processConsensus_v1 (advisors panel) agreeingProvider [] exampleInput))
       = ''consensus_reached''
   \<and> finalConsensus (fst (processConsensus_v1 (advisors panel) agreeingProvider [] exampleInput))
       = ''Adopt X. '' @ directiveText
   \<and> \<not> hasConsensus (roundVerdict panel askingProvider 1)
   \<and> \<not> hasConsensus (roundVerdict_v1 (advisors panel) askingProvider exampleData_v1 1)"
proof -
  note run = tool_requests_run [OF example_valid asking_facts, of "[]"]
  note run_v1 = tool_requests_run_v1 [OF example_valid_v1 asking_facts_v1, of "[]"]
  note agree =
    consensus_precedes_directives
      [of exampleInput exampleData panel agreeingProvider 1 "[]" exampleData_v1 "advisors panel"]
  from agree example_valid agreeing_facts obtain t
    where "consensusText (roundVerdict panel agreeingProvider 1) = Some t"
      and "processConsensus panel agreeingProvider [] exampleInput =
              (Completed ''consensus_reached'' t (Suc 1)
                 (map (roundOf panel agreeingProvider) [1..<Suc 1]
                    @ [summaryRound panel agreeingProvider
                         (map (roundOf panel agreeingProvider) [1..<Suc 1]) (Some t)])
                 (map (\<lambda>a. (idOf a, response (summaryResponse agreeingProvider (Suc 1) a)))
                    (advisors panel))
                 ''If the consensus includes source code or requests a code artifact, please provide the full source code in your final answer (do not truncate).'',
               map (roundOf panel agreeingProvider) [1..<Suc 1]
                 @ [summaryRound panel agreeingProvider
                      (map (roundOf panel agreeingProvider) [1..<Suc 1]) (Some t)])"
    by blast
  with agreeing_texts(1)
  have 1: "status (fst (processConsensus panel agreeingProvider [] exampleInput)) = ''consensus_reached''"
    "finalConsensus (fst (processConsensus panel agreeingProvider [] exampleInput))
       = ''Adopt X. '' @ directiveText"
    "length (snd (processConsensus panel agreeingProvider [] exampleInput)) = 2"
    by simp_all
  from agree example_valid_v1 agreeing_facts_v1 obtain u
    where "consensusText (roundVerdict_v1 (advisors panel) agreeingProvider exampleData_v1 1) = Some u"
      and "processConsensus_v1 (advisors panel) agreeingProvider [] exampleInput =
              (Concluded ''consensus_reached'' u 1
                 (map (roundOf_v1 (advisors panel) agreeingProvider exampleData_v1) [1..<Suc 1]),
               map (roundOf_v1 (advisors panel) agreeingProvider exampleData_v1) [1..<Suc 1])"
    by blast
  with agreeing_texts(2)
  have 2: "status (fst (processConsensus_v1 (advisors panel) agreeingProvider [] exampleInput))
       = ''consensus_reached''"
    "finalConsensus (fst (processConsensus_v1 (advisors panel) agreeingProvider [] exampleInput))
       = ''Adopt X. '' @ directiveText"
    by simp_all
  from consensus_precedes_directives
         [of exampleInput exampleData panel askingProvider 1 "[]" exampleData_v1 "advisors panel"
             "''tool_requests_needed''" 1 "roundRequests panel askingProvider 1"
             "generateDiscussionSummary (map (roundOf panel askingProvider) [1..<Suc 1])"
             "''Please execute the requested tools and continue the consensus process''"]
       run
  have 3: "\<not> hasConsensus (roundVerdict panel askingProvider 1)" by simp
  from consensus_precedes_directives
         [of exampleInput exampleData panel askingProvider 1 "[]" exampleData_v1 "advisors panel"
             "''tool_requests_needed''" 1 "roundRequests_v1 (advisors panel) askingProvider 1"
             "generateDiscussionSummary (map (roundOf_v1 (advisors panel) askingProvider exampleData_v1) [1..<Suc 1])"
             "''Please execute the requested tools and continue the consensus process''"]
       run_v1 example_valid_v1
  have 4: "\<not> hasConsensus (roundVerdict_v1 (advisors panel) askingProvider exampleData_v1 1)" by simp
  from 1 2 3 4 agreeing_facts(3) show ?thesis by blast
qed

section \<open>The length of the ledger\<close>

text \<open>
  C8. The ledger of a run that passed validation never holds more rounds than the round
  limit plus one, and a run that failed validation leaves the ledger of the run before
  it as it was, so the bound holds after every run. From any state of the loop the
  ledger grows by at most one round for each remaining iteration, what was in it stays
  as a prefix, and the summary pass appends exactly one round.
\<close>

theorem ledger_within_round_limit:
  "(validateConsensusData input = Inr d
     \<longrightarrow> length (snd (processConsensus srv api old input)) \<le> maxRounds srv + 1)
   \<and> (length old \<le> maxRounds srv + 1
     \<longrightarrow> length (snd (processConsensus srv api old input)) \<le> maxRounds srv + 1)
   \<and> length (ledger (roundLoop srv api d n h None)) \<le> length h + (Suc (maxRounds srv) - n)
   \<and> prefix h (ledger (roundLoop srv api d n h None))
   \<and> (\<exists>rd. snd (summaryPass srv api h c) = h @ [rd])"
proof (intro conjI impI)
  assume "validateConsensusData input = Inr d"
  from run_ledger [OF this, of srv api old]
  show "length (snd (processConsensus srv api old input)) \<le> maxRounds srv + 1"
    by auto
next
  assume old: "length old \<le> maxRounds srv + 1"
  show "length (snd (processConsensus srv api old input)) \<le> maxRounds srv + 1"
  proof (cases "validateConsensusData input")
    case (Inl e)
    with old show ?thesis by (simp add: processConsensus_def)
  next
    case (Inr d')
    from run_ledger [OF this, of srv api old] show ?thesis by auto
  qed
qed (auto simp: roundLoop_length roundLoop_prefix snd_summaryPass)

theorem ledger_within_round_limit_witness:
  "length (snd (processConsensus strictPanel splitProvider [] exampleInput)) = 3
   \<and> length (snd (processConsensus strictPanel splitProvider [] exampleInput))
       \<le> maxRounds strictPanel + 1"
  using ledger_within_round_limit [of exampleInput exampleData strictPanel splitProvider "[]"]
    example_valid split_run_length
  by simp

section \<open>Malformed directives\<close>



section \<open>Directives the pattern does not match\<close>

text \<open>
  C10, as amended. The pattern does not match a directive whose parameters are the
  empty object literal \<open>{}\<close>, nor one whose first key is \<open>parameters\<close> or
  \<open>reason\<close>, nor one whose second key is \<open>reason\<close>; and it does not match a
  directive whose parameters hold a nested object literal when the closing brace of the
  parameters follows the closing brace of the nested object: the parameters are cut at
  the first closing brace and the pattern then asks for a comma. Whatever the white
  space between the tokens, the text before the directive and the text behind it, the
  match at the occurrence fails and no match of the scan starts there. Every request
  and every warning of \<open>parseToolRequests\<close> comes from one match of the scan, at a
  place where the pattern matches, so none comes from the occurrence; and a response in
  which the marker occurs nowhere else yields no request and no warning at all. All
  these directives are dropped silently, none through the parse-failure path.
\<close>

theorem unmatched_directive_dropped_silently:
  \<open>(list_all isWhiteSpace (w1 @ w2 @ w3 @ w4 @ w5 @ w6 @ w7) \<and> CHR 0x22 \<notin> set t
      \<and> CHR ''}'' \<notin> set a
      \<and> occ \<in> set (unmatchedDirectives [w1, w2, w3, w4, w5, w6, w7] t a rest)
    \<longrightarrow> matchHere toolRegex occ = None
      \<and> length pre \<notin> set (matchStarts (pre @ occ))
      \<and> (markerStarts (pre @ occ) = [length pre]
           \<longrightarrow> parseToolRequests (pre @ occ) = ([], [])))
   \<and> length (fst (parseToolRequests s)) + length (snd (parseToolRequests s))
       = length (matchStarts s)
   \<and> (\<forall>i \<in> set (matchStarts s). matchHere toolRegex (drop i s) \<noteq> None)\<close>
proof (intro conjI impI ballI)
  assume a: \<open>list_all isWhiteSpace (w1 @ w2 @ w3 @ w4 @ w5 @ w6 @ w7) \<and> CHR 0x22 \<notin> set t
      \<and> CHR ''}'' \<notin> set a
      \<and> occ \<in> set (unmatchedDirectives [w1, w2, w3, w4, w5, w6, w7] t a rest)\<close>
  with unmatched_directives [of w1 w2 w3 w4 w5 w6 w7 t a occ rest]
  show none: "matchHere toolRegex occ = None" by simp
  then show "length pre \<notin> set (matchStarts (pre @ occ))"
    by (rule unmatched_not_started)
  assume "markerStarts (pre @ occ) = [length pre]"
  with none show "parseToolRequests (pre @ occ) = ([], [])"
    by (rule lone_marker_drop)
next
  have "length (filter parsable (matches s)) + length (filter (\<lambda>m. \<not> parsable m) (matches s))
          = length (matches s)"
    by (rule sum_length_filter_compl)
  then show "length (fst (parseToolRequests s)) + length (snd (parseToolRequests s))
       = length (matchStarts s)"
    by (simp add: parseToolRequests_def parseLoop_matches matchStarts_def matchStartsFrom_length)
next
  fix i
  assume "i \<in> set (matchStarts s)"
  then show "matchHere toolRegex (drop i s) \<noteq> None" by (rule matchStarts_sound)
qed

theorem unmatched_directive_dropped_silently_witness:
  "13 \<notin> set (matchStarts embeddedEmptyText)
   \<and> parseToolRequests embeddedEmptyText = ([], [])
   \<and> 13 \<notin> set (matchStarts embeddedNestedText)
   \<and> parseToolRequests embeddedNestedText = ([], [])
   \<and> 0 \<notin> set (matchStarts emptyThenGoodText)
   \<and> length (fst (parseToolRequests emptyThenGoodText))
       + length (snd (parseToolRequests emptyThenGoodText)) = 1
   \<and> matchHere toolRegex (drop 74 emptyThenGoodText) \<noteq> None"
proof -
  note shapes =
    unmatched_directive_dropped_silently
      [of "'' ''" "[]" "'' ''" "[]" "'' ''" "'' ''" "[]" "''web_search''" \<open>''"a": {"b": 1''\<close>]
  have len: "length ''I need data. '' = 13" by simp
  from shapes
         [of "directiveHead '' '' [] @ toolMember '' '' ''web_search'' [] '' ''
                @ parametersKey '' '' @ ''{}'' @ '', \"reason\": \"r\"} Thanks.''"
             \<open>'', "reason": "r"} Thanks.''\<close> "''I need data. ''"]
       example_spaces embedded_markers(1)
  have 1: "13 \<notin> set (matchStarts embeddedEmptyText)"
    "parseToolRequests embeddedEmptyText = ([], [])"
    unfolding embedded_shapes(1) [symmetric] len
    by simp_all
  from shapes
         [of "directiveHead '' '' [] @ toolMember '' '' ''web_search'' [] '' ''
                @ parametersKey '' '' @ ''{'' @ ''\"a\": {\"b\": 1'' @ ''}'' @ [] @ ''}''
                @ '', \"reason\": \"r\"} Thanks.''"
             \<open>'', "reason": "r"} Thanks.''\<close> "''I need data. ''"]
       example_spaces embedded_markers(2)
  have 2: "13 \<notin> set (matchStarts embeddedNestedText)"
    "parseToolRequests embeddedNestedText = ([], [])"
    unfolding embedded_shapes(2) [symmetric] len
    by simp_all
  from shapes
         [of "directiveHead '' '' [] @ toolMember '' '' ''web_search'' [] '' ''
                @ parametersKey '' '' @ ''{}'' @ '', \"reason\": \"r\"} and '' @ directiveText"
             \<open>'', "reason": "r"} and '' @ directiveText\<close> "[]" emptyThenGoodText]
       example_spaces embedded_markers(3)
  have 3: "0 \<notin> set (matchStarts emptyThenGoodText)"
    "length (fst (parseToolRequests emptyThenGoodText))
       + length (snd (parseToolRequests emptyThenGoodText)) = 1"
    "matchHere toolRegex (drop 74 emptyThenGoodText) \<noteq> None"
    by simp_all
  from 1 2 3 show ?thesis by blast
qed

text \<open>
  The claim as stated fails in its last part: a well-formed directive with a nested
  object in its parameters is not matched at all, so no warning is printed for it.
\<close>

theorem nested_object_counterexample:
  "matches nestedText = [] \<and> snd (parseToolRequests nestedText) = []"
  using nested_example by simp

end
